theory Spec2Isabelle
  imports Complex_Main "HOL-Library.AList"
begin

section \<open>Strings of the host language\<close>

text \<open>
  A string of the host language is a sequence of UTF-16 code units, here a list of
  natural numbers (a code unit is a number below 65536; the functions are defined on all
  lists); \<open>length\<close> counts what \<open>message.length\<close> counts. An ASCII literal of the source
  is written with \<open>utf16\<close>: one code unit for each of its characters.
\<close>

type_synonym jsstring = "nat list"

definition utf16 :: "string \<Rightarrow> jsstring" where
  "utf16 s = map (of_char :: char \<Rightarrow> nat) s"

text \<open>
  The character classes of the regular expressions of the source. \<open>\s\<close> is the white space
  and the line terminators of the language, which is also what \<open>trim\<close> removes: TAB, LF,
  VT, FF, CR, SPACE, U+00A0, U+1680, U+2000 to U+200A, U+2028, U+2029, U+202F, U+205F,
  U+3000 and U+FEFF. \<open>\w\<close> is \<open>[A-Za-z0-9_]\<close>.
\<close>

definition isWhiteSpace :: "nat \<Rightarrow> bool" where
  "isWhiteSpace c =
     (c \<in> {9, 10, 11, 12, 13, 32, 0xA0, 0x1680, 0x2028, 0x2029, 0x202F, 0x205F, 0x3000, 0xFEFF} \<or>
      (0x2000 \<le> c \<and> c \<le> 0x200A))"

definition isWordChar :: "nat \<Rightarrow> bool" where
  "isWordChar c =
     ((48 \<le> c \<and> c \<le> 57) \<or> (65 \<le> c \<and> c \<le> 90) \<or> c = 95 \<or> (97 \<le> c \<and> c \<le> 122))"

text \<open>
  \<open>s.toLowerCase()\<close> replaces every code point of \<open>s\<close> by its lowercase mapping of the
  Unicode tables. For an ASCII code unit that is the unit itself, or the small letter of a
  capital \<open>A-Z\<close>, whatever surrounds it. The mapping of the other code units comes from
  the tables of the engine and may depend on the surrounding text (a final sigma), may be
  longer than one unit (U+0130 becomes \<open>i\<close> and U+0307) and may be an ASCII letter (U+212A
  becomes \<open>k\<close>). It is a parameter: \<open>unicodeLower s i\<close> is what the code unit at
  position \<open>i\<close> of \<open>s\<close> contributes to the result (for a surrogate pair, the mapping of
  the code point at its first unit and nothing at its second).
\<close>

definition toLowerAscii :: "nat \<Rightarrow> nat" where
  "toLowerAscii c = (if 65 \<le> c \<and> c \<le> 90 then c + 32 else c)"

definition toLowerCase :: "(jsstring \<Rightarrow> nat \<Rightarrow> jsstring) \<Rightarrow> jsstring \<Rightarrow> jsstring" where
  "toLowerCase unicodeLower s =
     concat (map (\<lambda>i. if s ! i < 128 then [toLowerAscii (s ! i)] else unicodeLower s i)
                 [0..<length s])"

definition trim :: "jsstring \<Rightarrow> jsstring" where
  "trim s = rev (dropWhile isWhiteSpace (rev (dropWhile isWhiteSpace s)))"

text \<open>
  \<open>s.split(/\s+/)\<close>: the pieces between the maximal runs of white space. A string that
  starts (ends) with white space has an empty first (last) piece, and the empty string
  splits into one empty piece.
\<close>

function split_ws :: "jsstring \<Rightarrow> jsstring list" where
  "split_ws s =
     (let piece = takeWhile (\<lambda>c. \<not> isWhiteSpace c) s;
          rest = dropWhile (\<lambda>c. \<not> isWhiteSpace c) s
      in if rest = [] then [piece]
         else piece # split_ws (dropWhile isWhiteSpace rest))"
  by pat_completeness auto
termination
proof (relation "measure length")
  show "wf (measure length)" by simp
next
  fix s :: jsstring and piece rest :: jsstring
  assume r: "rest = dropWhile (\<lambda>c. \<not> isWhiteSpace c) s" and ne: "rest \<noteq> []"
  from r ne have "isWhiteSpace (hd rest)"
    using hd_dropWhile [of "\<lambda>c. \<not> isWhiteSpace c" s] by simp
  with ne have "length (dropWhile isWhiteSpace rest) < length rest"
    by (cases rest) (simp_all add: le_imp_less_Suc length_dropWhile_le)
  moreover from r have "length rest \<le> length s"
    by (simp add: length_dropWhile_le)
  ultimately show "(dropWhile isWhiteSpace rest, s) \<in> measure length"
    by simp
qed

declare split_ws.simps [simp del]

text \<open>\<open>context.includes(sub)\<close>: \<open>sub\<close> occurs in \<open>context\<close> as a contiguous substring.\<close>

fun startsWith :: "jsstring \<Rightarrow> jsstring \<Rightarrow> bool" where
  "startsWith s [] = True"
| "startsWith [] (p # ps) = False"
| "startsWith (c # cs) (p # ps) = (c = p \<and> startsWith cs ps)"

fun str_includes :: "jsstring \<Rightarrow> jsstring \<Rightarrow> bool" where
  "str_includes [] sub = (sub = [])"
| "str_includes (c # cs) sub = (startsWith (c # cs) sub \<or> str_includes cs sub)"

section \<open>Interfaces and configuration (\<open>src/index.ts\<close>)\<close>

record RequestBody =
  message :: jsstring

record FlaggedContent =
  score :: real
  fcontext :: jsstring

text \<open>\<open>FlaggedResult\<close>: the flag with its details. A flag is \<open>None\<close> when the key is \<open>undefined\<close>.\<close>

type_synonym FlaggedResult = "jsstring option \<times> FlaggedContent"

record TextAnalysisResult =
  isImproprio :: bool
  pontuacao :: real
  flag :: "jsstring option"
  contexto :: "jsstring option"

definition WORD_THRESHOLD :: real where "WORD_THRESHOLD = 0.95"
definition SEMANTIC_THRESHOLD :: real where "SEMANTIC_THRESHOLD = 0.96"
definition MAX_WORDS :: nat where "MAX_WORDS = 35"
definition MAX_CHARS :: nat where "MAX_CHARS = 1000"

definition ALLOWED_GENERAL :: "jsstring set" where
  "ALLOWED_GENERAL = {utf16 ''black'', utf16 ''swear''}"

definition ALLOWED_CONTEXT_SPECIFIC :: "(jsstring \<times> jsstring list) list" where
  "ALLOWED_CONTEXT_SPECIFIC = [(utf16 ''black'', [utf16 ''black belt'', utf16 ''black coffee'', utf16 ''black friday''])]"

section \<open>TextProcessor\<close>

definition sanitizeText :: "(jsstring \<Rightarrow> nat \<Rightarrow> jsstring) \<Rightarrow> jsstring \<Rightarrow> jsstring" where
  "sanitizeText unicodeLower text =
     trim (filter (\<lambda>c. isWordChar c \<or> isWhiteSpace c) (toLowerCase unicodeLower text))"

definition splitIntoWords :: "jsstring \<Rightarrow> jsstring list" where
  "splitIntoWords text = filter (\<lambda>word. length word > 0) (split_ws text)"

text \<open>
  The chunker is the text splitter of an external library, configured with chunk size 25,
  overlap 8 and the single separator \<open>' '\<close>. It is a parameter here: \<open>splitter text\<close> is the
  list of page contents of the documents it creates from \<open>text\<close>.
\<close>

definition splitIntoSemantics :: "(jsstring \<Rightarrow> jsstring list) \<Rightarrow> jsstring \<Rightarrow> jsstring list" where
  "splitIntoSemantics splitter text =
     (if length (splitIntoWords text) \<le> 1 then [] else splitter text)"

definition splitText :: "(jsstring \<Rightarrow> jsstring list) \<Rightarrow> jsstring \<Rightarrow> jsstring list \<times> jsstring list" where
  "splitText splitter text = (splitIntoWords text, splitIntoSemantics splitter text)"

definition isAllowedInContext :: "jsstring option \<Rightarrow> jsstring \<Rightarrow> bool" where
  "isAllowedInContext word ctx =
     (case word of
        None \<Rightarrow> False
      | Some w \<Rightarrow>
          (case map_of ALLOWED_CONTEXT_SPECIFIC w of
             None \<Rightarrow> False
           | Some contextSpecific \<Rightarrow> list_ex (\<lambda>allowedContext. str_includes ctx allowedContext) contextSpecific))"

section \<open>The similarity index\<close>

text \<open>
  One entry of a query's answer: its score and \<open>metadata?.text\<close> (\<open>None\<close> when the metadata
  or its text is missing). A query either rejects with an error message or resolves with
  the list of entries; with \<open>topK: 1\<close> the code reads the first one, if any.
\<close>

datatype QueryVector = QueryVector (vector_score: real) (metadata_text: "jsstring option")

datatype QueryOutcome = Rejects jsstring | Resolves "QueryVector list"

type_synonym Index = "jsstring \<Rightarrow> QueryOutcome"

section \<open>ProfanityDetectorAPI\<close>

datatype Response = JsonResult TextAnalysisResult | ErrorResponse (status: nat) (details: "jsstring option")

definition validateRequest :: "RequestBody \<Rightarrow> Response option" where
  "validateRequest body =
     (if message body = [] then Some (ErrorResponse 400 None)
      else let wordCount = length (split_ws (message body)) in
        if wordCount > MAX_WORDS \<or> length (message body) > MAX_CHARS
        then Some (ErrorResponse 413 None)
        else None)"

text \<open>
  \<open>findHighestScore\<close>: \<open>forEach\<close> visits the entries of the map in insertion order, carrying
  \<open>highest\<close> and \<open>maxScore\<close>.
\<close>

definition findHighestScore :: "(jsstring option \<times> FlaggedContent) list \<Rightarrow> FlaggedResult option" where
  "findHighestScore flaggedContent =
     fst (fold (\<lambda>(flag, details) (highest, maxScore).
                  if score details > maxScore then (Some (flag, details), score details)
                  else (highest, maxScore))
               flaggedContent (None, - 1))"

text \<open>
  The state of one \<open>analyzeContent\<close> call: the map \<open>flaggedContent\<close>, as the list of its
  entries in insertion order (\<open>set\<close> on a present key replaces the value in place, on a new
  key appends: \<^const>\<open>AList.update\<close>), and the texts whose lookup was answered.
\<close>

record LookupState =
  flaggedContent :: "(jsstring option \<times> FlaggedContent) list"
  queries :: "jsstring list"

definition wordLookup :: "Index \<Rightarrow> jsstring \<Rightarrow> jsstring \<Rightarrow> LookupState \<Rightarrow> jsstring + LookupState" where
  "wordLookup index originalContext word st =
     (if word \<in> ALLOWED_GENERAL then Inr st
      else case index word of
        Rejects err \<Rightarrow> Inl err
      | Resolves vectors \<Rightarrow>
          (let st1 = st\<lparr>queries := queries st @ [word]\<rparr> in
           case vectors of
             [] \<Rightarrow> Inr st1
           | vector # _ \<Rightarrow>
               if vector_score vector \<noteq> 0 \<and> vector_score vector > WORD_THRESHOLD then
                 (let flaggedWord = metadata_text vector in
                  if \<not> isAllowedInContext flaggedWord originalContext
                  then Inr (st1\<lparr>flaggedContent :=
                         AList.update flaggedWord \<lparr>score = vector_score vector, fcontext = word\<rparr>
                           (flaggedContent st1)\<rparr>)
                  else Inr st1)
               else Inr st1))"

definition chunkLookup :: "Index \<Rightarrow> jsstring \<Rightarrow> LookupState \<Rightarrow> jsstring + LookupState" where
  "chunkLookup index chunk st =
     (case index chunk of
        Rejects err \<Rightarrow> Inl err
      | Resolves vectors \<Rightarrow>
          (let st1 = st\<lparr>queries := queries st @ [chunk]\<rparr> in
           case vectors of
             [] \<Rightarrow> Inr st1
           | vector # _ \<Rightarrow>
               if vector_score vector \<noteq> 0 \<and> vector_score vector > SEMANTIC_THRESHOLD then
                 (let flaggedPhrase = metadata_text vector in
                  Inr (st1\<lparr>flaggedContent :=
                         AList.update flaggedPhrase \<lparr>score = vector_score vector, fcontext = chunk\<rparr>
                           (flaggedContent st1)\<rparr>))
               else Inr st1))"

text \<open>
  \<open>await Promise.all(units.map(callback))\<close>: the callbacks run to their end one after the
  other in the order in which their lookups are answered, and the first rejection rejects
  the whole. The list is the array in that order.
\<close>

fun promiseAll :: "(jsstring \<Rightarrow> LookupState \<Rightarrow> jsstring + LookupState) \<Rightarrow> jsstring list \<Rightarrow> LookupState \<Rightarrow> jsstring + LookupState" where
  "promiseAll callback [] st = Inr st"
| "promiseAll callback (u # us) st =
     (case callback u st of Inl err \<Rightarrow> Inl err | Inr st' \<Rightarrow> promiseAll callback us st')"

definition runLookups :: "Index \<Rightarrow> jsstring list \<Rightarrow> jsstring list \<Rightarrow> jsstring \<Rightarrow> jsstring + LookupState" where
  \<comment> \<open>\<open>analyzeContent\<close> up to the call of \<open>findHighestScore\<close>\<close>
  "runLookups index words semantics originalContext =
     (case promiseAll (wordLookup index originalContext) words \<lparr>flaggedContent = [], queries = []\<rparr> of
        Inl err \<Rightarrow> Inl err
      | Inr st \<Rightarrow>
          if length semantics > 0 then promiseAll (chunkLookup index) semantics st else Inr st)"

definition analyzeContent :: "Index \<Rightarrow> jsstring list \<Rightarrow> jsstring list \<Rightarrow> jsstring \<Rightarrow> jsstring + TextAnalysisResult" where
  "analyzeContent index words semantics originalContext =
     (case runLookups index words semantics originalContext of
        Inl err \<Rightarrow> Inl err
      | Inr st \<Rightarrow>
          (case findHighestScore (flaggedContent st) of
             Some highestScore \<Rightarrow>
               Inr \<lparr>isImproprio = True, pontuacao = score (snd highestScore),
                    flag = fst highestScore, contexto = Some (fcontext (snd highestScore))\<rparr>
           | None \<Rightarrow>
               Inr \<lparr>isImproprio = False, pontuacao = 0, flag = None, contexto = None\<rparr>))"

text \<open>
  \<open>handleDetection\<close>. \<open>unicodeLower\<close> is the lowercase mapping of the engine, and \<open>order\<close>
  gives, for an array of units, the order in which their lookups are answered.
\<close>

definition handleDetection ::
  "(jsstring \<Rightarrow> nat \<Rightarrow> jsstring) \<Rightarrow> (jsstring \<Rightarrow> jsstring list) \<Rightarrow> (jsstring list \<Rightarrow> jsstring list) \<Rightarrow>
   Index \<Rightarrow> jsstring option \<Rightarrow> RequestBody \<Rightarrow> jsstring + Response" where
  "handleDetection unicodeLower splitter order index contentType body =
     (if contentType \<noteq> Some (utf16 ''application/json'') then Inr (ErrorResponse 406 None)
      else case validateRequest body of
        Some validationError \<Rightarrow> Inr validationError
      | None \<Rightarrow>
          (let sanitizedMessage = sanitizeText unicodeLower (message body);
               (words, semantics) = splitText splitter sanitizedMessage
           in case analyzeContent index (order words) (order semantics) sanitizedMessage of
                Inl err \<Rightarrow> Inl err
              | Inr result \<Rightarrow> Inr (JsonResult result)))"

definition postRoute ::
  "(jsstring \<Rightarrow> nat \<Rightarrow> jsstring) \<Rightarrow> (jsstring \<Rightarrow> jsstring list) \<Rightarrow> (jsstring list \<Rightarrow> jsstring list) \<Rightarrow>
   Index \<Rightarrow> jsstring option \<Rightarrow> RequestBody \<Rightarrow> Response" where
  \<comment> \<open>the handler of \<open>POST /\<close>: \<open>try { handleDetection } catch (err) { status 500 }\<close>\<close>
  "postRoute unicodeLower splitter order index contentType body =
     (case handleDetection unicodeLower splitter order index contentType body of
        Inr response \<Rightarrow> response
      | Inl err \<Rightarrow> ErrorResponse 500 (Some err))"

section \<open>Sanitizer\<close>

lemma rev_dropWhile_rev_take: "\<exists>n. rev (dropWhile P (rev u)) = take n u"
  by (metis dropWhile_eq_drop rev_drop rev_rev_ident)

lemma set_trim: "set (trim s) \<subseteq> set s"
proof -
  obtain n where "trim s = take n (dropWhile isWhiteSpace s)"
    unfolding trim_def using rev_dropWhile_rev_take by blast
  then show ?thesis
    by (metis set_take_subset set_dropWhileD subsetI subset_trans)
qed

lemma trim_front: "dropWhile isWhiteSpace (trim s) = trim s"
proof (cases "trim s = []")
  case True
  then show ?thesis by simp
next
  case False
  obtain n where n: "trim s = take n (dropWhile isWhiteSpace s)"
    unfolding trim_def using rev_dropWhile_rev_take by blast
  with False have ne: "dropWhile isWhiteSpace s \<noteq> []" by auto
  then have "\<not> isWhiteSpace (hd (dropWhile isWhiteSpace s))"
    by (rule hd_dropWhile)
  moreover from n False have "hd (trim s) = hd (dropWhile isWhiteSpace s)"
    by (metis hd_take take_eq_Nil gr0I)
  ultimately show ?thesis
    using False by (cases "trim s") simp_all
qed

lemma trim_idem: "trim (trim s) = trim s"
proof -
  have "trim (trim s) = rev (dropWhile isWhiteSpace (rev (trim s)))"
    by (simp add: trim_def [of "trim s"] trim_front)
  also have "rev (trim s) = dropWhile isWhiteSpace (rev (dropWhile isWhiteSpace s))"
    by (simp add: trim_def)
  finally show ?thesis
    by (simp add: trim_def)
qed

lemma toLowerAscii_no_capital: "\<not> (65 \<le> toLowerAscii c \<and> toLowerAscii c \<le> 90)"
  by (simp add: toLowerAscii_def)

lemma toLowerAscii_fixed: "\<not> (65 \<le> c \<and> c \<le> 90) \<Longrightarrow> toLowerAscii c = c"
  by (simp add: toLowerAscii_def)

lemma concat_singletons: "concat (map (\<lambda>i. [xs ! i]) [0..<length xs]) = xs"
proof -
  have "concat (map (\<lambda>i. [xs ! i]) [0..<length xs]) = map (\<lambda>i. xs ! i) [0..<length xs]"
    by (induction "[0..<length xs]" arbitrary: xs) (simp_all add: concat_map_singleton)
  then show ?thesis by (simp add: map_nth)
qed

text \<open>
  Two facts about the lowercase mapping are all that the sanitizer needs: it never
  produces an ASCII capital letter, and it leaves white space as it is.
\<close>

lemma toLowerCase_no_capital:
  assumes no_capitals: "\<And>s i c. i < length s \<Longrightarrow> 128 \<le> s ! i \<Longrightarrow> c \<in> set (unicodeLower s i)
                          \<Longrightarrow> \<not> (65 \<le> c \<and> c \<le> 90)"
    and c: "c \<in> set (toLowerCase unicodeLower x)"
  shows "\<not> (65 \<le> c \<and> c \<le> 90)"
proof -
  from c obtain i where i: "i < length x"
    and mem: "c \<in> set (if x ! i < 128 then [toLowerAscii (x ! i)] else unicodeLower x i)"
    by (auto simp: toLowerCase_def)
  show ?thesis
  proof (cases "x ! i < 128")
    case True
    with mem have "c = toLowerAscii (x ! i)" by simp
    then show ?thesis by (simp add: toLowerAscii_no_capital)
  next
    case False
    with mem have "c \<in> set (unicodeLower x i)" and "128 \<le> x ! i" by simp_all
    with i show ?thesis using no_capitals by blast
  qed
qed

lemma toLowerCase_fixed:
  assumes white_space: "\<And>s i. i < length s \<Longrightarrow> 128 \<le> s ! i \<Longrightarrow> isWhiteSpace (s ! i)
                          \<Longrightarrow> unicodeLower s i = [s ! i]"
    and kept: "\<forall>c \<in> set y. (isWordChar c \<or> isWhiteSpace c) \<and> \<not> (65 \<le> c \<and> c \<le> 90)"
  shows "toLowerCase unicodeLower y = y"
proof -
  have "map (\<lambda>i. if y ! i < 128 then [toLowerAscii (y ! i)] else unicodeLower y i) [0..<length y]
        = map (\<lambda>i. [y ! i]) [0..<length y]"
  proof (rule map_cong [OF refl])
    fix i assume "i \<in> set [0..<length y]"
    then have i: "i < length y" by simp
    with kept have k: "(isWordChar (y ! i) \<or> isWhiteSpace (y ! i)) \<and> \<not> (65 \<le> y ! i \<and> y ! i \<le> 90)"
      by simp
    show "(if y ! i < 128 then [toLowerAscii (y ! i)] else unicodeLower y i) = [y ! i]"
    proof (cases "y ! i < 128")
      case True
      with k show ?thesis by (simp add: toLowerAscii_fixed)
    next
      case False
      with k have "isWhiteSpace (y ! i)" by (auto simp: isWordChar_def)
      with False i white_space [of i y] show ?thesis by simp
    qed
  qed
  then have "toLowerCase unicodeLower y = concat (map (\<lambda>i. [y ! i]) [0..<length y])"
    unfolding toLowerCase_def by (rule arg_cong)
  then show ?thesis
    by (simp only: concat_singletons)
qed

text \<open>
  C9. \<open>sanitizeText\<close> is idempotent on every string: sanitizing a sanitized text gives it
  back. The sanitizer lowercases, removes every character that is neither a word
  character (letter, digit, underscore) nor white space, and trims. The lowercase mapping
  is that of the engine; of it the proof uses that no code unit lowercases to an ASCII
  capital letter and that white space lowercases to itself, as the Unicode tables have
  it.
\<close>

theorem sanitizeText_idempotent:
  assumes no_capitals: "\<And>s i c. i < length s \<Longrightarrow> 128 \<le> s ! i \<Longrightarrow> c \<in> set (unicodeLower s i)
                          \<Longrightarrow> \<not> (65 \<le> c \<and> c \<le> 90)"
    and white_space: "\<And>s i. i < length s \<Longrightarrow> 128 \<le> s ! i \<Longrightarrow> isWhiteSpace (s ! i)
                          \<Longrightarrow> unicodeLower s i = [s ! i]"
  shows "sanitizeText unicodeLower (sanitizeText unicodeLower x) = sanitizeText unicodeLower x"
proof -
  let ?keep = "\<lambda>c. isWordChar c \<or> isWhiteSpace c"
  let ?y = "sanitizeText unicodeLower x"
  have sub: "set ?y \<subseteq> set (filter ?keep (toLowerCase unicodeLower x))"
    unfolding sanitizeText_def by (rule set_trim)
  have kept: "\<forall>c \<in> set ?y. (isWordChar c \<or> isWhiteSpace c) \<and> \<not> (65 \<le> c \<and> c \<le> 90)"
  proof
    fix c assume "c \<in> set ?y"
    with sub have k: "?keep c" and l: "c \<in> set (toLowerCase unicodeLower x)" by auto
    from toLowerCase_no_capital [OF no_capitals l] k
    show "(isWordChar c \<or> isWhiteSpace c) \<and> \<not> (65 \<le> c \<and> c \<le> 90)" by simp
  qed
  have low: "toLowerCase unicodeLower ?y = ?y"
    using white_space kept by (rule toLowerCase_fixed)
  have keep: "filter ?keep ?y = ?y"
    using sub by (auto intro: filter_True)
  have "sanitizeText unicodeLower ?y = trim ?y"
    by (simp add: sanitizeText_def [of unicodeLower ?y] low keep)
  also have "\<dots> = ?y"
    by (simp add: sanitizeText_def [of unicodeLower x] trim_idem)
  finally show ?thesis .
qed
theorem sanitizeText_idempotent_witness:
  "sanitizeText
     (\<lambda>s i. if 0xC0 \<le> s ! i \<and> s ! i \<le> 0xDE \<and> s ! i \<noteq> 0xD7 then [s ! i + 32]
            else if s ! i = 0x130 then [0x69, 0x307]
            else if s ! i = 0x212A then [0x6B]
            else [s ! i])
     [32, 72, 0x130, 33, 0x212A, 0x2003, 65, 0xC9, 95, 57, 0xA0]
     = [104, 105, 107, 0x2003, 97, 95, 57] \<and>
   sanitizeText
     (\<lambda>s i. if 0xC0 \<le> s ! i \<and> s ! i \<le> 0xDE \<and> s ! i \<noteq> 0xD7 then [s ! i + 32]
            else if s ! i = 0x130 then [0x69, 0x307]
            else if s ! i = 0x212A then [0x6B]
            else [s ! i])
     [104, 105, 107, 0x2003, 97, 95, 57]
     = [104, 105, 107, 0x2003, 97, 95, 57]"
proof -
  let ?lower = "\<lambda>(s :: jsstring) i. if 0xC0 \<le> s ! i \<and> s ! i \<le> 0xDE \<and> s ! i \<noteq> 0xD7 then [s ! i + 32]
            else if s ! i = 0x130 then [0x69, 0x307]
            else if s ! i = 0x212A then [0x6B]
            else [s ! i]"
  let ?x = "[32, 72, 0x130, 33, 0x212A, 0x2003, 65, 0xC9, 95, 57, 0xA0] :: jsstring"
  have no_capitals: "\<And>s i c. i < length s \<Longrightarrow> 128 \<le> s ! i \<Longrightarrow> c \<in> set (?lower s i)
                          \<Longrightarrow> \<not> (65 \<le> c \<and> c \<le> 90)"
    by (auto split: if_splits)
  have white_space: "\<And>s i. i < length s \<Longrightarrow> 128 \<le> s ! i \<Longrightarrow> isWhiteSpace (s ! i)
                          \<Longrightarrow> ?lower s i = [s ! i]"
    by (auto simp: isWhiteSpace_def)
  have a: "sanitizeText ?lower ?x = [104, 105, 107, 0x2003, 97, 95, 57]"
    by (simp add: sanitizeText_def toLowerCase_def toLowerAscii_def trim_def isWordChar_def
        isWhiteSpace_def upt_rec)
  from sanitizeText_idempotent [of ?lower ?x, OF no_capitals white_space] a show ?thesis
    by simp
qed

section \<open>Request validation\<close>

lemma split_ws_last:
  "dropWhile (\<lambda>c. \<not> isWhiteSpace c) s = [] \<Longrightarrow> split_ws s = [takeWhile (\<lambda>c. \<not> isWhiteSpace c) s]"
  by (simp add: split_ws.simps [of s] Let_def)

lemma split_ws_more:
  "dropWhile (\<lambda>c. \<not> isWhiteSpace c) s \<noteq> [] \<Longrightarrow>
   split_ws s = takeWhile (\<lambda>c. \<not> isWhiteSpace c) s
                # split_ws (dropWhile isWhiteSpace (dropWhile (\<lambda>c. \<not> isWhiteSpace c) s))"
  by (simp add: split_ws.simps [of s] Let_def del: dropWhile_eq_Nil_conv)

lemmas text_eval =
  utf16_def isWhiteSpace_def isWordChar_def toLowerAscii_def toLowerCase_def trim_def
  sanitizeText_def splitIntoWords_def split_ws_last split_ws_more

lemma split_ws_Nil: "split_ws [] = [[]]"
  by (simp add: split_ws_last)

lemma split_ws_all_white:
  assumes "s \<noteq> []" and "\<forall>c \<in> set s. isWhiteSpace c"
  shows "split_ws s = [[], []]"
proof -
  from assms have t: "takeWhile (\<lambda>c. \<not> isWhiteSpace c) s = []"
    by (cases s) simp_all
  from assms have d: "dropWhile (\<lambda>c. \<not> isWhiteSpace c) s = s"
    by (cases s) simp_all
  from assms have w: "dropWhile isWhiteSpace s = []"
    by simp
  show ?thesis
    using assms(1) by (simp add: split_ws_more [of s] t d w split_ws_Nil)
qed

lemma split_ws_pieces_nonempty:
  "s \<noteq> [] \<Longrightarrow> \<not> isWhiteSpace (hd s) \<Longrightarrow> \<not> isWhiteSpace (last s)
   \<Longrightarrow> \<forall>p \<in> set (split_ws s). p \<noteq> []"
proof (induction s rule: split_ws.induct)
  case (1 s)
  let ?piece = "takeWhile (\<lambda>c. \<not> isWhiteSpace c) s"
  let ?rest = "dropWhile (\<lambda>c. \<not> isWhiteSpace c) s"
  from "1.prems" have piece: "?piece \<noteq> []"
    by (cases s) simp_all
  show ?case
  proof (cases "?rest = []")
    case True
    with piece show ?thesis
      by (simp add: split_ws_last [of s])
  next
    case False
    let ?next = "dropWhile isWhiteSpace ?rest"
    have s: "s = ?piece @ ?rest" by simp
    from False have lastr: "last ?rest = last s"
      by (metis last_appendR s)
    with "1.prems" False have nxt: "?next \<noteq> []"
      by (metis dropWhile_eq_Nil_conv last_in_set)
    then have hdn: "\<not> isWhiteSpace (hd ?next)"
      by (rule hd_dropWhile)
    have "?rest = takeWhile isWhiteSpace ?rest @ ?next" by simp
    with nxt have "last ?next = last ?rest"
      by (metis last_appendR)
    with lastr "1.prems" have lastn: "\<not> isWhiteSpace (last ?next)" by simp
    from "1.IH" [OF refl refl False nxt hdn lastn]
    have "\<forall>p \<in> set (split_ws ?next). p \<noteq> []" .
    with piece False show ?thesis
      by (simp add: split_ws_more [of s])
  qed
qed

lemma splitIntoWords_length_le: "length (splitIntoWords s) \<le> length (split_ws s)"
  by (simp add: splitIntoWords_def)

lemma splitIntoWords_eq_split_ws:
  "s \<noteq> [] \<Longrightarrow> \<not> isWhiteSpace (hd s) \<Longrightarrow> \<not> isWhiteSpace (last s)
   \<Longrightarrow> splitIntoWords s = split_ws s"
  using split_ws_pieces_nonempty [of s] by (simp add: splitIntoWords_def)

text \<open>
  The word count of the validation is the number of pieces of \<open>split(/\s+/)\<close>, empty
  pieces included: with a leading space, a message of 35 words counts 36 and is rejected.
\<close>

lemma validateRequest_leading_space:
  "length (splitIntoWords (utf16 '' a b c d e f g h i j k l m n o p q r s t u v w x y z a b c d e f g h i'')) = 35 \<and>
   validateRequest \<lparr>message = utf16 '' a b c d e f g h i j k l m n o p q r s t u v w x y z a b c d e f g h i''\<rparr>
     = Some (ErrorResponse 413 None)"
  by (simp add: text_eval validateRequest_def MAX_WORDS_def MAX_CHARS_def)

text \<open>
  C3 (as amended). Validation rejects the message, before any processing, when it is the
  empty string (status 400; the message is not trimmed first), or when its
  whitespace-delimited word count exceeds 35 or its character count exceeds 1000
  (status 413). For a message that neither starts nor ends with white space these are the
  only rejections: it passes validation exactly when it has at most 35 words and at most
  1000 characters. A non-empty message of white space only, of at most 1000 characters,
  passes validation. A rejection is the response of the request, whatever the index
  would answer.
\<close>

theorem validateRequest_rejects:
  "(message body = [] \<longrightarrow> validateRequest body = Some (ErrorResponse 400 None)) \<and>
   (message body \<noteq> [] \<and> (length (splitIntoWords (message body)) > 35 \<or> length (message body) > 1000)
      \<longrightarrow> validateRequest body = Some (ErrorResponse 413 None)) \<and>
   (message body \<noteq> [] \<and> \<not> isWhiteSpace (hd (message body)) \<and> \<not> isWhiteSpace (last (message body))
      \<longrightarrow> (validateRequest body = None \<longleftrightarrow>
            length (splitIntoWords (message body)) \<le> 35 \<and> length (message body) \<le> 1000)) \<and>
   (message body \<noteq> [] \<and> (\<forall>c \<in> set (message body). isWhiteSpace c) \<and> length (message body) \<le> 1000
      \<longrightarrow> validateRequest body = None) \<and>
   (validateRequest body = Some rejection
      \<longrightarrow> postRoute unicodeLower splitter order index (Some (utf16 ''application/json'')) body = rejection)"
proof (intro conjI impI)
  assume "message body = []"
  then show "validateRequest body = Some (ErrorResponse 400 None)"
    by (simp add: validateRequest_def)
next
  assume a: "message body \<noteq> [] \<and> (length (splitIntoWords (message body)) > 35 \<or> length (message body) > 1000)"
  then show "validateRequest body = Some (ErrorResponse 413 None)"
    using splitIntoWords_length_le [of "message body"]
    by (auto simp: validateRequest_def MAX_WORDS_def MAX_CHARS_def)
next
  assume a: "message body \<noteq> [] \<and> \<not> isWhiteSpace (hd (message body)) \<and> \<not> isWhiteSpace (last (message body))"
  then have "splitIntoWords (message body) = split_ws (message body)"
    by (simp add: splitIntoWords_eq_split_ws)
  with a show "validateRequest body = None \<longleftrightarrow>
            length (splitIntoWords (message body)) \<le> 35 \<and> length (message body) \<le> 1000"
    by (auto simp: validateRequest_def MAX_WORDS_def MAX_CHARS_def)
next
  assume a: "message body \<noteq> [] \<and> (\<forall>c \<in> set (message body). isWhiteSpace c) \<and> length (message body) \<le> 1000"
  then have "split_ws (message body) = [[], []]"
    by (simp add: split_ws_all_white)
  with a show "validateRequest body = None"
    by (simp add: validateRequest_def MAX_WORDS_def MAX_CHARS_def)
next
  assume "validateRequest body = Some rejection"
  then show "postRoute unicodeLower splitter order index (Some (utf16 ''application/json'')) body = rejection"
    by (simp add: postRoute_def handleDetection_def)
qed

theorem validateRequest_rejects_witness:
  "validateRequest \<lparr>message = []\<rparr> = Some (ErrorResponse 400 None) \<and>
   validateRequest \<lparr>message = utf16 ''a b c d e f g h i j k l m n o p q r s t u v w x y z a b c d e f g h i j''\<rparr>
     = Some (ErrorResponse 413 None) \<and>
   validateRequest \<lparr>message = utf16 ''hello world''\<rparr> = None \<and>
   validateRequest \<lparr>message = [32, 32]\<rparr> = None \<and>
   postRoute (\<lambda>s i. [s ! i]) (\<lambda>t. []) (\<lambda>us. us) (\<lambda>u. Resolves []) (Some (utf16 ''application/json'')) \<lparr>message = []\<rparr>
     = ErrorResponse 400 None"
proof -
  let ?long = "utf16 ''a b c d e f g h i j k l m n o p q r s t u v w x y z a b c d e f g h i j''"
  have h1: "message \<lparr>message = []\<rparr> = []" by simp
  have r1: "validateRequest \<lparr>message = []\<rparr> = Some (ErrorResponse 400 None)"
    using validateRequest_rejects [of "\<lparr>message = []\<rparr>"] h1 by blast
  have "length (splitIntoWords ?long) = 36"
    by (simp add: text_eval validateRequest_def MAX_WORDS_def MAX_CHARS_def)
  then have h2: "message \<lparr>message = ?long\<rparr> \<noteq> [] \<and>
      (length (splitIntoWords (message \<lparr>message = ?long\<rparr>)) > 35 \<or> length (message \<lparr>message = ?long\<rparr>) > 1000)"
    by (simp add: utf16_def)
  have r2: "validateRequest \<lparr>message = ?long\<rparr> = Some (ErrorResponse 413 None)"
    using validateRequest_rejects [of "\<lparr>message = ?long\<rparr>"] h2 by blast
  have "length (splitIntoWords (utf16 ''hello world'')) = 2"
    by (simp add: text_eval validateRequest_def MAX_WORDS_def MAX_CHARS_def)
  then have h3: "message \<lparr>message = utf16 ''hello world''\<rparr> \<noteq> [] \<and>
      \<not> isWhiteSpace (hd (message \<lparr>message = utf16 ''hello world''\<rparr>)) \<and>
      \<not> isWhiteSpace (last (message \<lparr>message = utf16 ''hello world''\<rparr>)) \<and>
      length (splitIntoWords (message \<lparr>message = utf16 ''hello world''\<rparr>)) \<le> 35 \<and>
      length (message \<lparr>message = utf16 ''hello world''\<rparr>) \<le> 1000"
    by (simp add: isWhiteSpace_def utf16_def)
  have r3: "validateRequest \<lparr>message = utf16 ''hello world''\<rparr> = None"
    using validateRequest_rejects [of "\<lparr>message = utf16 ''hello world''\<rparr>"] h3 by blast
  have h4: "message \<lparr>message = [32, 32]\<rparr> \<noteq> [] \<and>
      (\<forall>c \<in> set (message \<lparr>message = [32, 32]\<rparr>). isWhiteSpace c) \<and>
      length (message \<lparr>message = [32, 32]\<rparr>) \<le> 1000"
    by (simp add: isWhiteSpace_def utf16_def)
  have r4: "validateRequest \<lparr>message = [32, 32]\<rparr> = None"
    using validateRequest_rejects [of "\<lparr>message = [32, 32]\<rparr>"] h4 by blast
  have r5: "postRoute (\<lambda>s i. [s ! i]) (\<lambda>t. []) (\<lambda>us. us) (\<lambda>u. Resolves []) (Some (utf16 ''application/json'')) \<lparr>message = []\<rparr>
     = ErrorResponse 400 None"
    using validateRequest_rejects [where body = "\<lparr>message = []\<rparr>" and rejection = "ErrorResponse 400 None"
          and unicodeLower = "\<lambda>s i. [s ! i]" and splitter = "\<lambda>t. []" and order = "\<lambda>us. us"
          and index = "\<lambda>u. Resolves []"] r1
    by blast
  from r1 r2 r3 r4 r5 show ?thesis by blast
qed

text \<open>
  The claim as stated fails: the message of two spaces is empty after trimming, and
  validation lets it pass; the request is processed and answered with a clean result.
\<close>

theorem validateRequest_blank_counterexample:
  "trim [32, 32] = [] \<and>
   validateRequest \<lparr>message = [32, 32]\<rparr> = None \<and>
   postRoute (\<lambda>s i. [s ! i]) (\<lambda>t. [t]) (\<lambda>us. us) (\<lambda>u. Resolves []) (Some (utf16 ''application/json''))
      \<lparr>message = [32, 32]\<rparr>
     = JsonResult \<lparr>isImproprio = False, pontuacao = 0, flag = None, contexto = None\<rparr>"
proof -
  have t: "trim [32, 32] = []"
    by (simp add: text_eval validateRequest_def MAX_WORDS_def MAX_CHARS_def)
  have v: "validateRequest \<lparr>message = [32, 32]\<rparr> = None"
    by (simp add: text_eval validateRequest_def MAX_WORDS_def MAX_CHARS_def)
  have san: "sanitizeText (\<lambda>s i. [s ! i]) [32, 32] = []"
    by (simp add: text_eval validateRequest_def MAX_WORDS_def MAX_CHARS_def)
  have ws: "splitIntoWords [] = []"
    by (simp add: text_eval validateRequest_def MAX_WORDS_def MAX_CHARS_def)
  have "postRoute (\<lambda>s i. [s ! i]) (\<lambda>t. [t]) (\<lambda>us. us) (\<lambda>u. Resolves []) (Some (utf16 ''application/json''))
      \<lparr>message = [32, 32]\<rparr>
     = JsonResult \<lparr>isImproprio = False, pontuacao = 0, flag = None, contexto = None\<rparr>"
    by (simp add: postRoute_def handleDetection_def splitText_def splitIntoSemantics_def
        analyzeContent_def findHighestScore_def runLookups_def v san ws)
  with t v show ?thesis by simp
qed

section \<open>Segmenter\<close>

text \<open>
  A text of at most one word has no semantic chunks; for a longer text the chunks are
  those of the external splitter.
\<close>

lemma splitIntoSemantics_short:
  "length (splitIntoWords text) \<le> 1 \<Longrightarrow> splitIntoSemantics splitter text = []"
  by (simp add: splitIntoSemantics_def)

lemma splitIntoSemantics_long:
  "2 \<le> length (splitIntoWords text) \<Longrightarrow> splitIntoSemantics splitter text = splitter text"
  by (simp add: splitIntoSemantics_def)

section \<open>The aggregator: lookups and the highest score\<close>

lemma promiseAll_invariant_aux:
  "promiseAll callback us st = Inr st' \<Longrightarrow> P st
   \<Longrightarrow> \<forall>u \<in> set us. \<forall>s s'. P s \<longrightarrow> callback u s = Inr s' \<longrightarrow> P s'
   \<Longrightarrow> P st'"
proof (induction us arbitrary: st)
  case Nil
  from Nil.prems(1) have "st = st'" by simp
  with Nil.prems(2) show ?case by blast
next
  case (Cons u us)
  from Cons.prems(1) obtain s1 where s1: "callback u st = Inr s1" and rest: "promiseAll callback us s1 = Inr st'"
    by (cases "callback u st") simp_all
  have "u \<in> set (u # us)" by simp
  with Cons.prems(3) Cons.prems(2) s1 have p1: "P s1" by blast
  have all: "\<forall>v \<in> set us. \<forall>s s'. P s \<longrightarrow> callback v s = Inr s' \<longrightarrow> P s'"
  proof (intro ballI allI impI)
    fix v s s'
    assume "v \<in> set us" "P s" "callback v s = Inr s'"
    moreover from this have "v \<in> set (u # us)" by simp
    ultimately show "P s'" using Cons.prems(3) by blast
  qed
  show ?case by (rule Cons.IH [OF rest p1 all])
qed
lemma promiseAll_invariant:
  assumes "promiseAll callback us st = Inr st'" and "P st"
    and "\<And>u s s'. u \<in> set us \<Longrightarrow> P s \<Longrightarrow> callback u s = Inr s' \<Longrightarrow> P s'"
  shows "P st'"
  using promiseAll_invariant_aux [of callback us st st' P] assms by blast
lemma promiseAll_rejects:
  assumes "u \<in> set us" and "\<And>s. \<exists>err. callback u s = Inl err"
  shows "\<exists>err. promiseAll callback us st = Inl err"
  using assms(1)
proof (induction us arbitrary: st)
  case Nil
  then show ?case by simp
next
  case (Cons x xs)
  show ?case
  proof (cases "callback x st")
    case (Inl err)
    then show ?thesis by simp
  next
    case (Inr s1)
    with Cons.prems assms(2) [of st] have "u \<in> set xs" by auto
    from Cons.IH [OF this, of s1] Inr show ?thesis by simp
  qed
qed
lemma set_update_subset: "set (AList.update k v al) \<subseteq> insert (k, v) (set al)"
  by (induction al) auto

lemma highest_fold:
  fixes fc :: "(jsstring option \<times> FlaggedContent) list"
  assumes "fold (\<lambda>(flag, details) (highest, maxScore).
                  if score details > maxScore then (Some (flag, details), score details)
                  else (highest, maxScore)) fc (None, - 1) = (h, m)"
  shows "(h = None \<longrightarrow> m = - 1 \<and> (\<forall>e \<in> set fc. score (snd e) \<le> - 1)) \<and>
         (\<forall>e. h = Some e \<longrightarrow> m = score (snd e) \<and> - 1 < m \<and>
            (\<exists>before after. fc = before @ e # after \<and>
               (\<forall>p \<in> set before. score (snd p) < m) \<and>
               (\<forall>p \<in> set after. score (snd p) \<le> m)))"
  using assms
proof (induction fc arbitrary: h m rule: rev_induct)
  case Nil
  then show ?case by simp
next
  case (snoc x xs)
  let ?F = "\<lambda>(flag, details) (highest, maxScore).
                  if score details > maxScore then (Some (flag, details), score details)
                  else (highest, maxScore)"
  obtain h0 m0 where f0: "fold ?F xs (None, - 1) = (h0, m0)"
    by (cases "fold ?F xs (None, - 1)") auto
  note ih = snoc.IH [OF f0]
  obtain flag details where x: "x = (flag, details)" by (cases x) auto
  show ?case
  proof (cases "score details > m0")
    case True
    with snoc.prems f0 x have hm: "h = Some x" "m = score details" by auto
    have lower: "\<forall>p \<in> set xs. score (snd p) < score details"
    proof (cases h0)
      case None
      with ih True show ?thesis by fastforce
    next
      case (Some e)
      with ih obtain before after where "xs = before @ e # after" "m0 = score (snd e)"
        "\<forall>p \<in> set before. score (snd p) < m0" "\<forall>p \<in> set after. score (snd p) \<le> m0"
        by blast
      with True show ?thesis by fastforce
    qed
    have "m0 \<ge> - 1" using ih by (cases h0) auto
    with True have pos: "- 1 < score details" by simp
    have "\<exists>before after. xs @ [x] = before @ x # after \<and>
        (\<forall>p \<in> set before. score (snd p) < score details) \<and>
        (\<forall>p \<in> set after. score (snd p) \<le> score details)"
      using lower by (intro exI [of _ xs] exI [of _ "[]"]) simp
    with hm x pos show ?thesis by simp
  next
    case False
    with snoc.prems f0 x have hm: "h = h0" "m = m0" by auto
    show ?thesis
    proof (cases h0)
      case None
      with ih hm False x show ?thesis by auto
    next
      case (Some e)
      with ih obtain before after where d: "xs = before @ e # after" "m0 = score (snd e)" "- 1 < m0"
        "\<forall>p \<in> set before. score (snd p) < m0" "\<forall>p \<in> set after. score (snd p) \<le> m0"
        by blast
      from d False x have "xs @ [x] = before @ e # (after @ [x]) \<and>
          (\<forall>p \<in> set before. score (snd p) < m0) \<and> (\<forall>p \<in> set (after @ [x]). score (snd p) \<le> m0)"
        by auto
      with Some hm d show ?thesis by blast
    qed
  qed
qed

lemma findHighestScore_None:
  assumes "findHighestScore fc = None"
  shows "\<forall>e \<in> set fc. score (snd e) \<le> - 1"
proof -
  let ?F = "\<lambda>(flag, details) (highest, maxScore).
                  if score details > maxScore then (Some (flag, details), score details)
                  else (highest, maxScore)"
  obtain h m where f: "fold ?F fc (None, - 1) = (h, m)"
    by (cases "fold ?F fc (None, - 1)") auto
  with assms have h: "h = None" by (simp add: findHighestScore_def)
  from highest_fold [OF f] have "h = None \<longrightarrow> m = - 1 \<and> (\<forall>e \<in> set fc. score (snd e) \<le> - 1)"
    by (rule conjunct1)
  with h show ?thesis by simp
qed

lemma findHighestScore_Some:
  assumes "findHighestScore fc = Some e"
  shows "\<exists>before after. fc = before @ e # after \<and>
        (\<forall>p \<in> set before. score (snd p) < score (snd e)) \<and>
        (\<forall>p \<in> set after. score (snd p) \<le> score (snd e))"
proof -
  let ?F = "\<lambda>(flag, details) (highest, maxScore).
                  if score details > maxScore then (Some (flag, details), score details)
                  else (highest, maxScore)"
  obtain h m where f: "fold ?F fc (None, - 1) = (h, m)"
    by (cases "fold ?F fc (None, - 1)") auto
  with assms have h: "h = Some e" by (simp add: findHighestScore_def)
  from highest_fold [OF f] have "\<forall>e. h = Some e \<longrightarrow> m = score (snd e) \<and> - 1 < m \<and>
            (\<exists>before after. fc = before @ e # after \<and>
               (\<forall>p \<in> set before. score (snd p) < m) \<and>
               (\<forall>p \<in> set after. score (snd p) \<le> m))"
    by (rule conjunct2)
  with h have "m = score (snd e) \<and> - 1 < m \<and>
            (\<exists>before after. fc = before @ e # after \<and>
               (\<forall>p \<in> set before. score (snd p) < m) \<and>
               (\<forall>p \<in> set after. score (snd p) \<le> m))"
    by (elim allE [of _ e] impE)
  then obtain before after where m: "m = score (snd e)" and fc: "fc = before @ e # after"
    and lo: "\<forall>p \<in> set before. score (snd p) < m" and hi: "\<forall>p \<in> set after. score (snd p) \<le> m"
    by (elim conjE exE)
  from fc lo hi show ?thesis
    unfolding m by (intro exI [of _ before] exI [of _ after] conjI)
qed

lemma wordLookup_cases:
  assumes "wordLookup index ctx w st = Inr st'"
  shows "(flaggedContent st' = flaggedContent st \<or>
          (\<exists>v vs. w \<notin> ALLOWED_GENERAL \<and> index w = Resolves (v # vs) \<and>
             vector_score v > WORD_THRESHOLD \<and> \<not> isAllowedInContext (metadata_text v) ctx \<and>
             flaggedContent st' =
               AList.update (metadata_text v) \<lparr>score = vector_score v, fcontext = w\<rparr> (flaggedContent st))) \<and>
         (queries st' = queries st \<and> w \<in> ALLOWED_GENERAL \<or>
          queries st' = queries st @ [w] \<and> w \<notin> ALLOWED_GENERAL)"
  using assms
  by (auto simp: wordLookup_def Let_def split: if_splits QueryOutcome.splits list.splits)
lemma chunkLookup_cases:
  assumes "chunkLookup index c st = Inr st'"
  shows "(flaggedContent st' = flaggedContent st \<or>
          (\<exists>v vs. index c = Resolves (v # vs) \<and> vector_score v > SEMANTIC_THRESHOLD \<and>
             flaggedContent st' =
               AList.update (metadata_text v) \<lparr>score = vector_score v, fcontext = c\<rparr> (flaggedContent st))) \<and>
         queries st' = queries st @ [c]"
  using assms
  by (auto simp: chunkLookup_def Let_def split: if_splits QueryOutcome.splits list.splits)
lemma runLookups_Inr:
  assumes "runLookups index words semantics ctx = Inr st"
  shows "\<exists>st1. promiseAll (wordLookup index ctx) words \<lparr>flaggedContent = [], queries = []\<rparr> = Inr st1 \<and>
               promiseAll (chunkLookup index) semantics st1 = Inr st"
proof (cases "promiseAll (wordLookup index ctx) words \<lparr>flaggedContent = [], queries = []\<rparr>")
  case (Inl err)
  with assms show ?thesis by (simp add: runLookups_def)
next
  case (Inr st1)
  with assms have eq: "(if length semantics > 0 then promiseAll (chunkLookup index) semantics st1 else Inr st1) = Inr st"
    by (simp add: runLookups_def)
  have "promiseAll (chunkLookup index) semantics st1 = Inr st"
  proof (cases "semantics = []")
    case True
    with eq show ?thesis by simp
  next
    case False
    with eq show ?thesis by simp
  qed
  with Inr show ?thesis by blast
qed
lemma runLookups_invariant:
  assumes run: "runLookups index words semantics ctx = Inr st"
    and init: "P \<lparr>flaggedContent = [], queries = []\<rparr>"
    and word: "\<And>w s s'. w \<in> set words \<Longrightarrow> P s \<Longrightarrow> wordLookup index ctx w s = Inr s' \<Longrightarrow> P s'"
    and chunk: "\<And>c s s'. c \<in> set semantics \<Longrightarrow> P s \<Longrightarrow> chunkLookup index c s = Inr s' \<Longrightarrow> P s'"
  shows "P st"
proof -
  from runLookups_Inr [OF run] obtain st1
    where w: "promiseAll (wordLookup index ctx) words \<lparr>flaggedContent = [], queries = []\<rparr> = Inr st1"
      and c: "promiseAll (chunkLookup index) semantics st1 = Inr st"
    by blast
  from w init word have p1: "P st1"
    by (rule promiseAll_invariant [where P = P and callback = "wordLookup index ctx" and us = words])
  from c p1 chunk show ?thesis
    by (rule promiseAll_invariant [where P = P and callback = "chunkLookup index" and us = semantics])
qed
text \<open>Every entry of the flagged set comes from a unit whose lookup cleared its threshold.\<close>

lemma runLookups_entries:
  assumes run: "runLookups index words semantics ctx = Inr st"
    and e: "(label, d) \<in> set (flaggedContent st)"
  shows "(\<exists>w \<in> set words. \<exists>v vs. w \<notin> ALLOWED_GENERAL \<and> index w = Resolves (v # vs) \<and>
            vector_score v > WORD_THRESHOLD \<and> \<not> isAllowedInContext (metadata_text v) ctx \<and>
            label = metadata_text v \<and> d = \<lparr>score = vector_score v, fcontext = w\<rparr>) \<or>
         (\<exists>c \<in> set semantics. \<exists>v vs. index c = Resolves (v # vs) \<and>
            vector_score v > SEMANTIC_THRESHOLD \<and>
            label = metadata_text v \<and> d = \<lparr>score = vector_score v, fcontext = c\<rparr>)"
proof -
  let ?ok = "\<lambda>label d.
        (\<exists>w \<in> set words. \<exists>v vs. w \<notin> ALLOWED_GENERAL \<and> index w = Resolves (v # vs) \<and>
            vector_score v > WORD_THRESHOLD \<and> \<not> isAllowedInContext (metadata_text v) ctx \<and>
            label = metadata_text v \<and> d = \<lparr>score = vector_score v, fcontext = w\<rparr>) \<or>
         (\<exists>c \<in> set semantics. \<exists>v vs. index c = Resolves (v # vs) \<and>
            vector_score v > SEMANTIC_THRESHOLD \<and>
            label = metadata_text v \<and> d = \<lparr>score = vector_score v, fcontext = c\<rparr>)"
  let ?P = "\<lambda>s. \<forall>label d. (label, d) \<in> set (flaggedContent s) \<longrightarrow> ?ok label d"
  have "?P st"
  proof (rule runLookups_invariant [OF run, where P = ?P])
    show "?P \<lparr>flaggedContent = [], queries = []\<rparr>" by simp
  next
    fix w s s'
    assume w: "w \<in> set words" and p: "?P s" and step: "wordLookup index ctx w s = Inr s'"
    from wordLookup_cases [OF step]
    consider "flaggedContent s' = flaggedContent s"
      | v vs where "w \<notin> ALLOWED_GENERAL" "index w = Resolves (v # vs)"
          "vector_score v > WORD_THRESHOLD" "\<not> isAllowedInContext (metadata_text v) ctx"
          "flaggedContent s' =
             AList.update (metadata_text v) \<lparr>score = vector_score v, fcontext = w\<rparr> (flaggedContent s)"
      by blast
    then show "?P s'"
    proof cases
      case 1
      with p show ?thesis by simp
    next
      case 2
      from w 2(1-4) have new: "?ok (metadata_text v) \<lparr>score = vector_score v, fcontext = w\<rparr>"
        by (intro disjI1 bexI [of _ w] exI [of _ v] exI [of _ vs]) simp_all
      show ?thesis
      proof (intro allI impI)
        fix label d assume "(label, d) \<in> set (flaggedContent s')"
        with 2(5) set_update_subset [of "metadata_text v" "\<lparr>score = vector_score v, fcontext = w\<rparr>" "flaggedContent s"]
        have "(label, d) = (metadata_text v, \<lparr>score = vector_score v, fcontext = w\<rparr>) \<or> (label, d) \<in> set (flaggedContent s)"
          by auto
        then show "?ok label d"
        proof
          assume "(label, d) = (metadata_text v, \<lparr>score = vector_score v, fcontext = w\<rparr>)"
          with new show ?thesis by simp
        next
          assume "(label, d) \<in> set (flaggedContent s)"
          with p show ?thesis by (elim allE [of _ label] allE [of _ d] impE)
        qed
      qed
    qed
  next
    fix c s s'
    assume c: "c \<in> set semantics" and p: "?P s" and step: "chunkLookup index c s = Inr s'"
    from chunkLookup_cases [OF step]
    consider "flaggedContent s' = flaggedContent s"
      | v vs where "index c = Resolves (v # vs)" "vector_score v > SEMANTIC_THRESHOLD"
          "flaggedContent s' =
             AList.update (metadata_text v) \<lparr>score = vector_score v, fcontext = c\<rparr> (flaggedContent s)"
      by blast
    then show "?P s'"
    proof cases
      case 1
      with p show ?thesis by simp
    next
      case 2
      from c 2(1-2) have new: "?ok (metadata_text v) \<lparr>score = vector_score v, fcontext = c\<rparr>"
        by (intro disjI2 bexI [of _ c] exI [of _ v] exI [of _ vs]) simp_all
      show ?thesis
      proof (intro allI impI)
        fix label d assume "(label, d) \<in> set (flaggedContent s')"
        with 2(3) set_update_subset [of "metadata_text v" "\<lparr>score = vector_score v, fcontext = c\<rparr>" "flaggedContent s"]
        have "(label, d) = (metadata_text v, \<lparr>score = vector_score v, fcontext = c\<rparr>) \<or> (label, d) \<in> set (flaggedContent s)"
          by auto
        then show "?ok label d"
        proof
          assume "(label, d) = (metadata_text v, \<lparr>score = vector_score v, fcontext = c\<rparr>)"
          with new show ?thesis by simp
        next
          assume "(label, d) \<in> set (flaggedContent s)"
          with p show ?thesis by (elim allE [of _ label] allE [of _ d] impE)
        qed
      qed
    qed
  qed
  with e show ?thesis by (elim allE [of _ label] allE [of _ d] impE)
qed
lemma runLookups_scores:
  assumes "runLookups index words semantics ctx = Inr st" and "e \<in> set (flaggedContent st)"
  shows "score (snd e) > 0.95"
proof -
  obtain label d where "e = (label, d)" by (cases e) auto
  with runLookups_entries [OF assms(1), of label d] assms(2) show ?thesis
    by (auto simp: WORD_THRESHOLD_def SEMANTIC_THRESHOLD_def)
qed

lemmas lookup_eval =
  runLookups_def wordLookup_def chunkLookup_def isAllowedInContext_def Let_def
  ALLOWED_GENERAL_def ALLOWED_CONTEXT_SPECIFIC_def WORD_THRESHOLD_def SEMANTIC_THRESHOLD_def utf16_def

lemma first_greatest_unique:
  fixes f :: "'a \<Rightarrow> real"
  assumes eq: "b1 @ e1 # a1 = b2 @ e2 # a2"
    and "\<forall>p \<in> set b1. f p < f e1" and "\<forall>p \<in> set a1. f p \<le> f e1"
    and "\<forall>p \<in> set b2. f p < f e2" and "\<forall>p \<in> set a2. f p \<le> f e2"
  shows "e1 = e2"
proof -
  from eq obtain us where
    "b1 = b2 @ us \<and> us @ e1 # a1 = e2 # a2 \<or> b1 @ us = b2 \<and> e1 # a1 = us @ e2 # a2"
    unfolding append_eq_append_conv2 by blast
  then show ?thesis
  proof
    assume a: "b1 = b2 @ us \<and> us @ e1 # a1 = e2 # a2"
    show ?thesis
    proof (cases us)
      case Nil
      with a show ?thesis by simp
    next
      case (Cons u us')
      with a have "e2 \<in> set b1" and "e1 \<in> set a2" by auto
      with assms(2,5) have "f e2 < f e1" and "f e1 \<le> f e2" by blast+
      then show ?thesis by simp
    qed
  next
    assume a: "b1 @ us = b2 \<and> e1 # a1 = us @ e2 # a2"
    show ?thesis
    proof (cases us)
      case Nil
      with a show ?thesis by simp
    next
      case (Cons u us')
      with a have "e1 \<in> set b2" and "e2 \<in> set a1" by auto
      with assms(3,4) have "f e1 < f e2" and "f e2 \<le> f e1" by blast+
      then show ?thesis by simp
    qed
  qed
qed

text \<open>
  C2. After all lookups: when the flagged set is empty the result is clean with score 0;
  when it is not, the result is flagged, and it carries the label, score and context of the
  entry with the greatest score, the first such entry in the iteration order of the set on
  ties (every entry before it has a strictly lower score, every entry after it none higher).
  The third part says that this entry is the only one the result can come from.
\<close>

theorem analyzeContent_reports_highest:
  assumes run: "runLookups index words semantics ctx = Inr st"
  shows "(flaggedContent st = [] \<longrightarrow>
            analyzeContent index words semantics ctx =
              Inr \<lparr>isImproprio = False, pontuacao = 0, flag = None, contexto = None\<rparr>) \<and>
         (flaggedContent st \<noteq> [] \<longrightarrow>
            (\<exists>before label details after.
               flaggedContent st = before @ (label, details) # after \<and>
               (\<forall>e \<in> set before. score (snd e) < score details) \<and>
               (\<forall>e \<in> set after. score (snd e) \<le> score details) \<and>
               analyzeContent index words semantics ctx =
                 Inr \<lparr>isImproprio = True, pontuacao = score details, flag = label,
                      contexto = Some (fcontext details)\<rparr>)) \<and>
         (\<forall>before label details after.
            flaggedContent st = before @ (label, details) # after \<and>
            (\<forall>e \<in> set before. score (snd e) < score details) \<and>
            (\<forall>e \<in> set after. score (snd e) \<le> score details)
            \<longrightarrow> analyzeContent index words semantics ctx =
                  Inr \<lparr>isImproprio = True, pontuacao = score details, flag = label,
                       contexto = Some (fcontext details)\<rparr>)"
proof (intro conjI allI impI)
  assume "flaggedContent st = []"
  then have "findHighestScore (flaggedContent st) = None"
    by (simp add: findHighestScore_def)
  with run show "analyzeContent index words semantics ctx =
              Inr \<lparr>isImproprio = False, pontuacao = 0, flag = None, contexto = None\<rparr>"
    by (simp add: analyzeContent_def)
next
  assume ne: "flaggedContent st \<noteq> []"
  then obtain e where e: "e \<in> set (flaggedContent st)"
    by (cases "flaggedContent st") auto
  have "findHighestScore (flaggedContent st) \<noteq> None"
  proof
    assume "findHighestScore (flaggedContent st) = None"
    from findHighestScore_None [OF this] e have "score (snd e) \<le> - 1" by blast
    moreover from runLookups_scores [OF run e] have "score (snd e) > 0.95" .
    ultimately show False by simp
  qed
  then obtain h where h: "findHighestScore (flaggedContent st) = Some h" by blast
  obtain label details where ld: "h = (label, details)" by (cases h) auto
  from findHighestScore_Some [OF h] ld obtain before after
    where d: "flaggedContent st = before @ (label, details) # after"
      "\<forall>p \<in> set before. score (snd p) < score details"
      "\<forall>p \<in> set after. score (snd p) \<le> score details"
    by auto
  from h ld run have "analyzeContent index words semantics ctx =
                 Inr \<lparr>isImproprio = True, pontuacao = score details, flag = label,
                      contexto = Some (fcontext details)\<rparr>"
    by (simp add: analyzeContent_def)
  with d show "\<exists>before label details after.
               flaggedContent st = before @ (label, details) # after \<and>
               (\<forall>e \<in> set before. score (snd e) < score details) \<and>
               (\<forall>e \<in> set after. score (snd e) \<le> score details) \<and>
               analyzeContent index words semantics ctx =
                 Inr \<lparr>isImproprio = True, pontuacao = score details, flag = label,
                      contexto = Some (fcontext details)\<rparr>"
    by blast
next
  fix before label details after
  assume a: "flaggedContent st = before @ (label, details) # after \<and>
            (\<forall>e \<in> set before. score (snd e) < score details) \<and>
            (\<forall>e \<in> set after. score (snd e) \<le> score details)"
  then have mem: "(label, details) \<in> set (flaggedContent st)" by simp
  have "findHighestScore (flaggedContent st) \<noteq> None"
  proof
    assume "findHighestScore (flaggedContent st) = None"
    from findHighestScore_None [OF this] mem have "score (snd (label, details)) \<le> - 1" by blast
    moreover from runLookups_scores [OF run mem] have "score (snd (label, details)) > 0.95" .
    ultimately show False by simp
  qed
  then obtain h where h: "findHighestScore (flaggedContent st) = Some h" by blast
  from findHighestScore_Some [OF h] obtain b2 a2 where d: "flaggedContent st = b2 @ h # a2"
    "\<forall>p \<in> set b2. score (snd p) < score (snd h)" "\<forall>p \<in> set a2. score (snd p) \<le> score (snd h)"
    by blast
  from a d(1) have eq: "before @ (label, details) # after = b2 @ h # a2" by simp
  have "(label, details) = h"
    using a d(2,3) by (intro first_greatest_unique [OF eq, where f = "\<lambda>e. score (snd e)"]) simp_all
  with h run show "analyzeContent index words semantics ctx =
                  Inr \<lparr>isImproprio = True, pontuacao = score details, flag = label,
                       contexto = Some (fcontext details)\<rparr>"
    by (auto simp: analyzeContent_def)
qed

theorem analyzeContent_reports_highest_witness:
  "analyzeContent
     (\<lambda>u. if u = utf16 ''foo'' then Resolves [QueryVector 0.97 (Some (utf16 ''x''))]
          else if u = utf16 ''bar'' then Resolves [QueryVector 0.98 (Some (utf16 ''y''))]
          else if u = utf16 ''baz'' then Resolves [QueryVector 0.98 (Some (utf16 ''z''))]
          else Resolves [])
     [utf16 ''foo'', utf16 ''bar'', utf16 ''baz''] [] (utf16 ''foo bar baz'')
     = Inr \<lparr>isImproprio = True, pontuacao = 0.98, flag = Some (utf16 ''y''), contexto = Some (utf16 ''bar'')\<rparr> \<and>
   analyzeContent (\<lambda>u. Resolves []) [utf16 ''hello''] [] (utf16 ''hello'')
     = Inr \<lparr>isImproprio = False, pontuacao = 0, flag = None, contexto = None\<rparr>"
proof -
  let ?index = "\<lambda>u. if u = utf16 ''foo'' then Resolves [QueryVector 0.97 (Some (utf16 ''x''))]
          else if u = utf16 ''bar'' then Resolves [QueryVector 0.98 (Some (utf16 ''y''))]
          else if u = utf16 ''baz'' then Resolves [QueryVector 0.98 (Some (utf16 ''z''))]
          else Resolves []"
  let ?st = "\<lparr>flaggedContent =
                [(Some (utf16 ''x''), \<lparr>score = 0.97, fcontext = utf16 ''foo''\<rparr>),
                 (Some (utf16 ''y''), \<lparr>score = 0.98, fcontext = utf16 ''bar''\<rparr>),
                 (Some (utf16 ''z''), \<lparr>score = 0.98, fcontext = utf16 ''baz''\<rparr>)],
              queries = [utf16 ''foo'', utf16 ''bar'', utf16 ''baz'']\<rparr>"
  have run: "runLookups ?index [utf16 ''foo'', utf16 ''bar'', utf16 ''baz''] [] (utf16 ''foo bar baz'') = Inr ?st"
    by (simp add: lookup_eval)
  have split: "flaggedContent ?st =
      [(Some (utf16 ''x''), \<lparr>score = 0.97, fcontext = utf16 ''foo''\<rparr>)]
      @ (Some (utf16 ''y''), \<lparr>score = 0.98, fcontext = utf16 ''bar''\<rparr>)
      # [(Some (utf16 ''z''), \<lparr>score = 0.98, fcontext = utf16 ''baz''\<rparr>)] \<and>
      (\<forall>e \<in> set [(Some (utf16 ''x''), \<lparr>score = 0.97, fcontext = utf16 ''foo''\<rparr>)].
          score (snd e) < score \<lparr>score = 0.98, fcontext = utf16 ''bar''\<rparr>) \<and>
      (\<forall>e \<in> set [(Some (utf16 ''z''), \<lparr>score = 0.98, fcontext = utf16 ''baz''\<rparr>)].
          score (snd e) \<le> score \<lparr>score = 0.98, fcontext = utf16 ''bar''\<rparr>)"
    by simp
  from analyzeContent_reports_highest [OF run] split
  have r1: "analyzeContent ?index [utf16 ''foo'', utf16 ''bar'', utf16 ''baz''] [] (utf16 ''foo bar baz'')
      = Inr \<lparr>isImproprio = True, pontuacao = score \<lparr>score = 0.98, fcontext = utf16 ''bar''\<rparr>,
             flag = Some (utf16 ''y''), contexto = Some (fcontext \<lparr>score = 0.98, fcontext = utf16 ''bar''\<rparr>)\<rparr>"
    by blast
  have run2: "runLookups (\<lambda>u. Resolves []) [utf16 ''hello''] [] (utf16 ''hello'')
      = Inr \<lparr>flaggedContent = [], queries = [utf16 ''hello'']\<rparr>"
    by (simp add: lookup_eval)
  from analyzeContent_reports_highest [OF run2]
  have r2: "analyzeContent (\<lambda>u. Resolves []) [utf16 ''hello''] [] (utf16 ''hello'')
     = Inr \<lparr>isImproprio = False, pontuacao = 0, flag = None, contexto = None\<rparr>"
    by simp
  from r1 r2 show ?thesis by simp
qed

text \<open>
  C10. The result of a request whose aggregation completes: when it is flagged, its score
  strictly exceeds 0.95 and is the score that the index returned for one of the units
  (whose text is the reported context, and whose label is the reported flag); when it is
  not flagged, its score is 0 and neither a flag nor a context is present.
\<close>

theorem analyzeContent_result_invariant:
  assumes fin: "analyzeContent index words semantics ctx = Inr result"
  shows "(isImproprio result \<longrightarrow>
            pontuacao result > 0.95 \<and>
            (\<exists>u \<in> set words \<union> set semantics. \<exists>v vs.
                index u = Resolves (v # vs) \<and> vector_score v = pontuacao result \<and>
                flag result = metadata_text v \<and> contexto result = Some u)) \<and>
         (\<not> isImproprio result \<longrightarrow>
            pontuacao result = 0 \<and> flag result = None \<and> contexto result = None)"
proof -
  from fin obtain st where run: "runLookups index words semantics ctx = Inr st"
    by (cases "runLookups index words semantics ctx") (simp_all add: analyzeContent_def)
  show ?thesis
  proof (cases "findHighestScore (flaggedContent st)")
    case None
    with fin run have "result = \<lparr>isImproprio = False, pontuacao = 0, flag = None, contexto = None\<rparr>"
      by (simp add: analyzeContent_def)
    then show ?thesis by simp
  next
    case (Some h)
    obtain label d where h: "h = (label, d)" by (cases h) auto
    from fin run Some h
    have res: "result = \<lparr>isImproprio = True, pontuacao = score d, flag = label, contexto = Some (fcontext d)\<rparr>"
      by (simp add: analyzeContent_def)
    from findHighestScore_Some [OF Some] h have mem: "(label, d) \<in> set (flaggedContent st)"
      by auto
    from runLookups_scores [OF run mem] have high: "score d > 0.95" by simp
    from runLookups_entries [OF run mem]
    have "\<exists>u \<in> set words \<union> set semantics. \<exists>v vs.
            index u = Resolves (v # vs) \<and> vector_score v = score d \<and>
            label = metadata_text v \<and> fcontext d = u"
    proof
      assume "\<exists>w \<in> set words. \<exists>v vs. w \<notin> ALLOWED_GENERAL \<and> index w = Resolves (v # vs) \<and>
            vector_score v > WORD_THRESHOLD \<and> \<not> isAllowedInContext (metadata_text v) ctx \<and>
            label = metadata_text v \<and> d = \<lparr>score = vector_score v, fcontext = w\<rparr>"
      then obtain w v vs where "w \<in> set words" "index w = Resolves (v # vs)"
        "label = metadata_text v" "d = \<lparr>score = vector_score v, fcontext = w\<rparr>"
        by blast
      then show ?thesis
        by (intro bexI [of _ w] exI [of _ v] exI [of _ vs]) simp_all
    next
      assume "\<exists>c \<in> set semantics. \<exists>v vs. index c = Resolves (v # vs) \<and>
            vector_score v > SEMANTIC_THRESHOLD \<and>
            label = metadata_text v \<and> d = \<lparr>score = vector_score v, fcontext = c\<rparr>"
      then obtain c v vs where "c \<in> set semantics" "index c = Resolves (v # vs)"
        "label = metadata_text v" "d = \<lparr>score = vector_score v, fcontext = c\<rparr>"
        by blast
      then show ?thesis
        by (intro bexI [of _ c] exI [of _ v] exI [of _ vs]) simp_all
    qed
    with high res show ?thesis by simp
  qed
qed

theorem analyzeContent_result_invariant_witness:
  "analyzeContent
     (\<lambda>u. if u = utf16 ''foo'' then Resolves [QueryVector 0.97 (Some (utf16 ''x''))]
          else if u = utf16 ''foo bar'' then Resolves [QueryVector 0.99 (Some (utf16 ''y''))]
          else Resolves [])
     [utf16 ''foo'', utf16 ''bar''] [utf16 ''foo bar''] (utf16 ''foo bar'')
     = Inr \<lparr>isImproprio = True, pontuacao = 0.99, flag = Some (utf16 ''y''), contexto = Some (utf16 ''foo bar'')\<rparr> \<and>
   (\<exists>u \<in> set [utf16 ''foo'', utf16 ''bar''] \<union> set [utf16 ''foo bar'']. \<exists>v vs.
      (\<lambda>u. if u = utf16 ''foo'' then Resolves [QueryVector 0.97 (Some (utf16 ''x''))]
          else if u = utf16 ''foo bar'' then Resolves [QueryVector 0.99 (Some (utf16 ''y''))]
          else Resolves []) u = Resolves (v # vs) \<and>
      vector_score v = 0.99 \<and> Some (utf16 ''y'') = metadata_text v \<and> Some (utf16 ''foo bar'') = Some u)"
proof -
  let ?index = "\<lambda>u. if u = utf16 ''foo'' then Resolves [QueryVector 0.97 (Some (utf16 ''x''))]
          else if u = utf16 ''foo bar'' then Resolves [QueryVector 0.99 (Some (utf16 ''y''))]
          else Resolves []"
  let ?result = "\<lparr>isImproprio = True, pontuacao = 0.99, flag = Some (utf16 ''y''), contexto = Some (utf16 ''foo bar'')\<rparr>"
  have a: "analyzeContent ?index [utf16 ''foo'', utf16 ''bar''] [utf16 ''foo bar''] (utf16 ''foo bar'') = Inr ?result"
    by (simp add: analyzeContent_def findHighestScore_def lookup_eval)
  from analyzeContent_result_invariant [OF a] a show ?thesis
    by simp
qed

section \<open>Failing lookups\<close>

lemma wordLookup_rejects:
  "w \<notin> ALLOWED_GENERAL \<Longrightarrow> index w = Rejects err \<Longrightarrow> wordLookup index ctx w st = Inl err"
  by (simp add: wordLookup_def)

lemma chunkLookup_rejects:
  "index c = Rejects err \<Longrightarrow> chunkLookup index c st = Inl err"
  by (simp add: chunkLookup_def)

lemma runLookups_word_rejects:
  assumes "w \<in> set words" and "w \<notin> ALLOWED_GENERAL" and "index w = Rejects err"
  shows "\<exists>err'. runLookups index words semantics ctx = Inl err'"
proof -
  have "\<And>s. \<exists>e. wordLookup index ctx w s = Inl e"
    using assms(2,3) by (simp add: wordLookup_rejects)
  with assms(1) obtain e
    where "promiseAll (wordLookup index ctx) words \<lparr>flaggedContent = [], queries = []\<rparr> = Inl e"
    using promiseAll_rejects [of w words "wordLookup index ctx"] by blast
  then show ?thesis by (simp add: runLookups_def)
qed

lemma runLookups_chunk_rejects:
  assumes "c \<in> set semantics" and "index c = Rejects err"
  shows "\<exists>err'. runLookups index words semantics ctx = Inl err'"
proof (cases "promiseAll (wordLookup index ctx) words \<lparr>flaggedContent = [], queries = []\<rparr>")
  case (Inl e)
  then show ?thesis by (simp add: runLookups_def)
next
  case (Inr st1)
  have "\<And>s. \<exists>e. chunkLookup index c s = Inl e"
    using assms(2) by (simp add: chunkLookup_rejects)
  with assms(1) obtain e where "promiseAll (chunkLookup index) semantics st1 = Inl e"
    using promiseAll_rejects [of c semantics "chunkLookup index"] by blast
  moreover from assms(1) have "length semantics > 0" by (cases semantics) simp_all
  ultimately show ?thesis using Inr by (simp add: runLookups_def)
qed

text \<open>
  C1 (as amended). When the lookup of a queried unit (a word outside the general
  allowlist, or a chunk) throws, \<open>analyzeContent\<close> rejects, whatever the other lookups
  return, and the request is answered with status 500 and the error's message instead of a
  result. Only a lookup that resolves without a usable entry (an empty answer, or a first
  entry with score 0) is treated as no match for that unit alone: it leaves the flagged
  set as it was, and the lookups that follow go on from there.
\<close>

theorem lookup_failure_fails_request:
  "((\<exists>w \<in> set words. w \<notin> ALLOWED_GENERAL \<and> (\<exists>err. index w = Rejects err)) \<or>
    (\<exists>c \<in> set semantics. \<exists>err. index c = Rejects err)
      \<longrightarrow> (\<exists>err. analyzeContent index words semantics ctx = Inl err)) \<and>
   (validateRequest body = None \<and>
    analyzeContent index
      (order (splitIntoWords (sanitizeText unicodeLower (message body))))
      (order (splitIntoSemantics splitter (sanitizeText unicodeLower (message body))))
      (sanitizeText unicodeLower (message body)) = Inl err
      \<longrightarrow> postRoute unicodeLower splitter order index (Some (utf16 ''application/json'')) body = ErrorResponse 500 (Some err)) \<and>
   (index u = Resolves vectors \<and> (case vectors of [] \<Rightarrow> True | v # _ \<Rightarrow> vector_score v = 0)
      \<longrightarrow> (\<exists>st'. chunkLookup index u st = Inr st' \<and> flaggedContent st' = flaggedContent st) \<and>
          (\<exists>st'. wordLookup index ctx u st = Inr st' \<and> flaggedContent st' = flaggedContent st))"
proof (intro conjI impI)
  assume "(\<exists>w \<in> set words. w \<notin> ALLOWED_GENERAL \<and> (\<exists>err. index w = Rejects err)) \<or>
    (\<exists>c \<in> set semantics. \<exists>err. index c = Rejects err)"
  then have "\<exists>err. runLookups index words semantics ctx = Inl err"
  proof
    assume "\<exists>w \<in> set words. w \<notin> ALLOWED_GENERAL \<and> (\<exists>err. index w = Rejects err)"
    then obtain w e where "w \<in> set words" "w \<notin> ALLOWED_GENERAL" "index w = Rejects e" by blast
    then show ?thesis by (rule runLookups_word_rejects)
  next
    assume "\<exists>c \<in> set semantics. \<exists>err. index c = Rejects err"
    then obtain c e where "c \<in> set semantics" "index c = Rejects e" by blast
    then show ?thesis by (rule runLookups_chunk_rejects)
  qed
  then obtain e where "runLookups index words semantics ctx = Inl e" by blast
  then have "analyzeContent index words semantics ctx = Inl e"
    by (simp add: analyzeContent_def)
  then show "\<exists>err. analyzeContent index words semantics ctx = Inl err" by blast
next
  assume "validateRequest body = None \<and>
    analyzeContent index
      (order (splitIntoWords (sanitizeText unicodeLower (message body))))
      (order (splitIntoSemantics splitter (sanitizeText unicodeLower (message body))))
      (sanitizeText unicodeLower (message body)) = Inl err"
  then show "postRoute unicodeLower splitter order index (Some (utf16 ''application/json'')) body = ErrorResponse 500 (Some err)"
    by (simp add: postRoute_def handleDetection_def splitText_def Let_def)
next
  assume a: "index u = Resolves vectors \<and> (case vectors of [] \<Rightarrow> True | v # _ \<Rightarrow> vector_score v = 0)"
  then show "\<exists>st'. chunkLookup index u st = Inr st' \<and> flaggedContent st' = flaggedContent st"
    by (cases vectors) (auto simp: chunkLookup_def Let_def)
next
  assume a: "index u = Resolves vectors \<and> (case vectors of [] \<Rightarrow> True | v # _ \<Rightarrow> vector_score v = 0)"
  then show "\<exists>st'. wordLookup index ctx u st = Inr st' \<and> flaggedContent st' = flaggedContent st"
    by (cases vectors) (auto simp: wordLookup_def Let_def)
qed
theorem lookup_failure_fails_request_witness:
  "(\<exists>err. analyzeContent
      (\<lambda>u. if u = utf16 ''foo'' then Rejects (utf16 ''unavailable'')
           else if u = utf16 ''bar'' then Resolves [QueryVector 0.99 (Some (utf16 ''bar''))]
           else Resolves [])
      [utf16 ''bar'', utf16 ''foo''] [utf16 ''foo bar''] (utf16 ''foo bar'') = Inl err) \<and>
   postRoute (\<lambda>s i. [s ! i]) (\<lambda>t. [t]) (\<lambda>us. us)
      (\<lambda>u. if u = utf16 ''foo'' then Rejects (utf16 ''unavailable'')
           else if u = utf16 ''bar'' then Resolves [QueryVector 0.99 (Some (utf16 ''bar''))]
           else Resolves [])
      (Some (utf16 ''application/json'')) \<lparr>message = utf16 ''foo bar''\<rparr>
     = ErrorResponse 500 (Some (utf16 ''unavailable'')) \<and>
   (\<exists>st'. wordLookup (\<lambda>u. Resolves []) (utf16 ''foo bar'') (utf16 ''foo'')
            \<lparr>flaggedContent = [(Some (utf16 ''bar''), \<lparr>score = 0.99, fcontext = utf16 ''bar''\<rparr>)], queries = [utf16 ''bar'']\<rparr>
          = Inr st' \<and>
          flaggedContent st' = [(Some (utf16 ''bar''), \<lparr>score = 0.99, fcontext = utf16 ''bar''\<rparr>)])"
proof -
  let ?index = "\<lambda>u. if u = utf16 ''foo'' then Rejects (utf16 ''unavailable'')
           else if u = utf16 ''bar'' then Resolves [QueryVector 0.99 (Some (utf16 ''bar''))]
           else Resolves []"
  let ?body = "\<lparr>message = utf16 ''foo bar''\<rparr>"
  let ?st = "\<lparr>flaggedContent = [(Some (utf16 ''bar''), \<lparr>score = 0.99, fcontext = utf16 ''bar''\<rparr>)], queries = [utf16 ''bar'']\<rparr>"
  have h1: "(\<exists>w \<in> set [utf16 ''bar'', utf16 ''foo'']. w \<notin> ALLOWED_GENERAL \<and> (\<exists>err. ?index w = Rejects err)) \<or>
      (\<exists>c \<in> set [utf16 ''foo bar'']. \<exists>err. ?index c = Rejects err)"
    by (simp add: ALLOWED_GENERAL_def utf16_def)
  from lookup_failure_fails_request
         [where words = "[utf16 ''bar'', utf16 ''foo'']" and index = ?index
            and semantics = "[utf16 ''foo bar'']" and ctx = "utf16 ''foo bar''"] h1
  have r1: "\<exists>err. analyzeContent ?index [utf16 ''bar'', utf16 ''foo''] [utf16 ''foo bar''] (utf16 ''foo bar'') = Inl err"
    by blast
  have san: "sanitizeText (\<lambda>s i. [s ! i]) (message ?body) = utf16 ''foo bar''"
    by (simp add: text_eval validateRequest_def MAX_WORDS_def MAX_CHARS_def)
  have ws: "splitIntoWords (utf16 ''foo bar'') = [utf16 ''foo'', utf16 ''bar'']"
    by (simp add: text_eval validateRequest_def MAX_WORDS_def MAX_CHARS_def)
  have valid: "validateRequest ?body = None"
    by (simp add: text_eval validateRequest_def MAX_WORDS_def MAX_CHARS_def)
  have sem: "splitIntoSemantics (\<lambda>t. [t]) (utf16 ''foo bar'') = [utf16 ''foo bar'']"
    by (simp add: splitIntoSemantics_def ws)
  have "analyzeContent ?index [utf16 ''foo'', utf16 ''bar''] [utf16 ''foo bar''] (utf16 ''foo bar'') = Inl (utf16 ''unavailable'')"
    by (simp add: analyzeContent_def lookup_eval)
  with san ws sem valid
  have h2: "validateRequest ?body = None \<and>
      analyzeContent ?index
        ((\<lambda>us. us) (splitIntoWords (sanitizeText (\<lambda>s i. [s ! i]) (message ?body))))
        ((\<lambda>us. us) (splitIntoSemantics (\<lambda>t. [t]) (sanitizeText (\<lambda>s i. [s ! i]) (message ?body))))
        (sanitizeText (\<lambda>s i. [s ! i]) (message ?body)) = Inl (utf16 ''unavailable'')"
    by simp
  from lookup_failure_fails_request
         [where index = ?index and body = ?body and order = "\<lambda>us. us" and splitter = "\<lambda>t. [t]"
            and unicodeLower = "\<lambda>s i. [s ! i]" and err = "utf16 ''unavailable''"] h2
  have r2: "postRoute (\<lambda>s i. [s ! i]) (\<lambda>t. [t]) (\<lambda>us. us) ?index (Some (utf16 ''application/json'')) ?body
      = ErrorResponse 500 (Some (utf16 ''unavailable''))"
    by blast
  have h3: "(\<lambda>u. Resolves []) (utf16 ''foo'') = Resolves [] \<and>
      (case [] of [] \<Rightarrow> True | v # _ \<Rightarrow> vector_score v = 0)"
    by simp
  from lookup_failure_fails_request
         [where index = "\<lambda>u. Resolves []" and ctx = "utf16 ''foo bar''" and u = "utf16 ''foo''"
            and vectors = "[]" and st = ?st] h3
  have r3: "\<exists>st'. wordLookup (\<lambda>u. Resolves []) (utf16 ''foo bar'') (utf16 ''foo'') ?st = Inr st' \<and>
      flaggedContent st' = flaggedContent ?st"
    by blast
  from r1 r2 r3 show ?thesis by simp
qed

text \<open>
  The claim as stated fails: the lookup of \<open>foo\<close> throws while the lookup of \<open>bar\<close> returns
  a match with score 0.99. Alone, \<open>bar\<close> is reported; with \<open>foo\<close> the whole request fails
  with status 500, in either order of the answers.
\<close>

theorem lookup_failure_counterexample:
  "analyzeContent
      (\<lambda>u. if u = utf16 ''foo'' then Rejects (utf16 ''unavailable'')
           else if u = utf16 ''bar'' then Resolves [QueryVector 0.99 (Some (utf16 ''bar''))]
           else Resolves [])
      [utf16 ''bar''] [] (utf16 ''foo bar'')
     = Inr \<lparr>isImproprio = True, pontuacao = 0.99, flag = Some (utf16 ''bar''), contexto = Some (utf16 ''bar'')\<rparr> \<and>
   analyzeContent
      (\<lambda>u. if u = utf16 ''foo'' then Rejects (utf16 ''unavailable'')
           else if u = utf16 ''bar'' then Resolves [QueryVector 0.99 (Some (utf16 ''bar''))]
           else Resolves [])
      [utf16 ''foo'', utf16 ''bar''] [utf16 ''foo bar''] (utf16 ''foo bar'') = Inl (utf16 ''unavailable'') \<and>
   analyzeContent
      (\<lambda>u. if u = utf16 ''foo'' then Rejects (utf16 ''unavailable'')
           else if u = utf16 ''bar'' then Resolves [QueryVector 0.99 (Some (utf16 ''bar''))]
           else Resolves [])
      [utf16 ''bar'', utf16 ''foo''] [utf16 ''foo bar''] (utf16 ''foo bar'') = Inl (utf16 ''unavailable'') \<and>
   postRoute (\<lambda>s i. [s ! i]) (\<lambda>t. [t]) (\<lambda>us. us)
      (\<lambda>u. if u = utf16 ''foo'' then Rejects (utf16 ''unavailable'')
           else if u = utf16 ''bar'' then Resolves [QueryVector 0.99 (Some (utf16 ''bar''))]
           else Resolves [])
      (Some (utf16 ''application/json'')) \<lparr>message = utf16 ''foo bar''\<rparr>
     = ErrorResponse 500 (Some (utf16 ''unavailable''))"
proof -
  let ?index = "\<lambda>u. if u = utf16 ''foo'' then Rejects (utf16 ''unavailable'')
           else if u = utf16 ''bar'' then Resolves [QueryVector 0.99 (Some (utf16 ''bar''))]
           else Resolves []"
  have alone: "analyzeContent ?index [utf16 ''bar''] [] (utf16 ''foo bar'')
     = Inr \<lparr>isImproprio = True, pontuacao = 0.99, flag = Some (utf16 ''bar''), contexto = Some (utf16 ''bar'')\<rparr>"
    by (simp add: analyzeContent_def findHighestScore_def lookup_eval)
  have first: "analyzeContent ?index [utf16 ''foo'', utf16 ''bar''] [utf16 ''foo bar''] (utf16 ''foo bar'')
     = Inl (utf16 ''unavailable'')"
    by (simp add: analyzeContent_def lookup_eval)
  have second: "analyzeContent ?index [utf16 ''bar'', utf16 ''foo''] [utf16 ''foo bar''] (utf16 ''foo bar'')
     = Inl (utf16 ''unavailable'')"
    by (simp add: analyzeContent_def lookup_eval)
  have san: "sanitizeText (\<lambda>s i. [s ! i]) (utf16 ''foo bar'') = utf16 ''foo bar''"
    by (simp add: text_eval)
  have ws: "splitIntoWords (utf16 ''foo bar'') = [utf16 ''foo'', utf16 ''bar'']"
    by (simp add: text_eval)
  have valid: "validateRequest \<lparr>message = utf16 ''foo bar''\<rparr> = None"
    by (simp add: text_eval validateRequest_def MAX_WORDS_def MAX_CHARS_def)
  have route: "postRoute (\<lambda>s i. [s ! i]) (\<lambda>t. [t]) (\<lambda>us. us) ?index
      (Some (utf16 ''application/json'')) \<lparr>message = utf16 ''foo bar''\<rparr>
     = ErrorResponse 500 (Some (utf16 ''unavailable''))"
    by (simp add: postRoute_def handleDetection_def splitText_def splitIntoSemantics_def
        san ws valid first)
  from alone first second route show ?thesis
    by (intro conjI)
qed

section \<open>Allowlist policy\<close>

lemma startsWith_iff: "startsWith s p \<longleftrightarrow> (\<exists>post. s = p @ post)"
  by (induction s p rule: startsWith.induct) auto

lemma str_includes_iff: "str_includes s sub \<longleftrightarrow> (\<exists>pre post. s = pre @ sub @ post)"
proof (induction s)
  case Nil
  then show ?case by auto
next
  case (Cons c cs)
  show ?case
  proof
    assume "str_includes (c # cs) sub"
    then consider "startsWith (c # cs) sub" | "str_includes cs sub" by auto
    then show "\<exists>pre post. c # cs = pre @ sub @ post"
    proof cases
      case 1
      then obtain post where "c # cs = sub @ post" by (auto simp: startsWith_iff)
      then have "c # cs = [] @ sub @ post" by simp
      then show ?thesis by blast
    next
      case 2
      with Cons.IH obtain pre post where "cs = pre @ sub @ post" by blast
      then have "c # cs = (c # pre) @ sub @ post" by simp
      then show ?thesis by blast
    qed
  next
    assume "\<exists>pre post. c # cs = pre @ sub @ post"
    then obtain pre post where eq: "c # cs = pre @ sub @ post" by blast
    show "str_includes (c # cs) sub"
    proof (cases pre)
      case Nil
      with eq have "startsWith (c # cs) sub" by (auto simp: startsWith_iff)
      then show ?thesis by simp
    next
      case (Cons p pre')
      with eq have "cs = pre' @ sub @ post" by simp
      with Cons.IH have "str_includes cs sub" by blast
      then show ?thesis by simp
    qed
  qed
qed

lemma isAllowedInContext_iff:
  "isAllowedInContext (Some label) ctx \<longleftrightarrow>
     (\<exists>allowed. map_of ALLOWED_CONTEXT_SPECIFIC label = Some allowed \<and>
        (\<exists>a \<in> set allowed. \<exists>pre post. ctx = pre @ a @ post))"
  by (simp add: isAllowedInContext_def list_ex_iff str_includes_iff split: option.splits)

lemma word_phase_no_allowed_label:
  assumes run: "promiseAll (wordLookup index ctx) words \<lparr>flaggedContent = [], queries = []\<rparr> = Inr st1"
    and allowed: "isAllowedInContext label ctx"
  shows "map_of (flaggedContent st1) label = None"
proof -
  let ?P = "\<lambda>s. map_of (flaggedContent s) label = None"
  have init: "?P \<lparr>flaggedContent = [], queries = []\<rparr>" by simp
  have step: "\<And>w s s'. w \<in> set words \<Longrightarrow> ?P s \<Longrightarrow> wordLookup index ctx w s = Inr s' \<Longrightarrow> ?P s'"
  proof -
    fix w s s'
    assume p: "?P s" and st: "wordLookup index ctx w s = Inr s'"
    from wordLookup_cases [OF st]
    consider "flaggedContent s' = flaggedContent s"
      | v where "\<not> isAllowedInContext (metadata_text v) ctx"
          "flaggedContent s' =
             AList.update (metadata_text v) \<lparr>score = vector_score v, fcontext = w\<rparr> (flaggedContent s)"
      by blast
    then show "?P s'"
    proof cases
      case 1
      with p show ?thesis by simp
    next
      case 2
      with allowed have "metadata_text v \<noteq> label" by auto
      with 2(2) p show ?thesis by (simp add: update_conv')
    qed
  qed
  from run init step show ?thesis
    by (rule promiseAll_invariant [where P = ?P and callback = "wordLookup index ctx" and us = words])
qed

text \<open>
  C4. A label whose context-specific list of allowed contexts has an entry that occurs as a
  substring of the full sanitized message is exempt: the word-level lookup that returns it
  leaves the flagged set as it was, whatever the score, and after the word-level lookups
  the flagged set has no entry for it. A label without a context-specific entry is not
  exempt: a word-level lookup that returns it with a score above 0.95 records it.
\<close>

theorem context_allowed_label_not_flagged:
  "(map_of ALLOWED_CONTEXT_SPECIFIC label = Some allowed \<and>
    (\<exists>a \<in> set allowed. \<exists>pre post. ctx = pre @ a @ post)
      \<longrightarrow> (index word = Resolves (QueryVector s (Some label) # rest)
            \<longrightarrow> (\<exists>st'. wordLookup index ctx word st = Inr st' \<and>
                       flaggedContent st' = flaggedContent st)) \<and>
          (promiseAll (wordLookup index ctx) words \<lparr>flaggedContent = [], queries = []\<rparr> = Inr st1
            \<longrightarrow> map_of (flaggedContent st1) (Some label) = None)) \<and>
   (map_of ALLOWED_CONTEXT_SPECIFIC label = None
      \<longrightarrow> \<not> isAllowedInContext (Some label) ctx \<and>
          (word \<notin> ALLOWED_GENERAL \<and> index word = Resolves (QueryVector s (Some label) # rest) \<and> s > 0.95
            \<longrightarrow> wordLookup index ctx word st =
                  Inr (st\<lparr>queries := queries st @ [word],
                          flaggedContent :=
                            AList.update (Some label) \<lparr>score = s, fcontext = word\<rparr> (flaggedContent st)\<rparr>)))"
proof (intro conjI impI)
  assume a: "map_of ALLOWED_CONTEXT_SPECIFIC label = Some allowed \<and>
    (\<exists>a \<in> set allowed. \<exists>pre post. ctx = pre @ a @ post)"
    and r: "index word = Resolves (QueryVector s (Some label) # rest)"
  from a have "isAllowedInContext (Some label) ctx"
    unfolding isAllowedInContext_iff by blast
  with r show "\<exists>st'. wordLookup index ctx word st = Inr st' \<and> flaggedContent st' = flaggedContent st"
    by (simp add: wordLookup_def Let_def)
next
  assume a: "map_of ALLOWED_CONTEXT_SPECIFIC label = Some allowed \<and>
    (\<exists>a \<in> set allowed. \<exists>pre post. ctx = pre @ a @ post)"
    and run: "promiseAll (wordLookup index ctx) words \<lparr>flaggedContent = [], queries = []\<rparr> = Inr st1"
  from a have "isAllowedInContext (Some label) ctx"
    unfolding isAllowedInContext_iff by blast
  with run show "map_of (flaggedContent st1) (Some label) = None"
    by (rule word_phase_no_allowed_label)
next
  assume "map_of ALLOWED_CONTEXT_SPECIFIC label = None"
  then show "\<not> isAllowedInContext (Some label) ctx"
    by (simp add: isAllowedInContext_def)
next
  assume "map_of ALLOWED_CONTEXT_SPECIFIC label = None"
    and r: "word \<notin> ALLOWED_GENERAL \<and> index word = Resolves (QueryVector s (Some label) # rest) \<and> s > 0.95"
  then have "\<not> isAllowedInContext (Some label) ctx"
    by (simp add: isAllowedInContext_def)
  with r show "wordLookup index ctx word st =
                  Inr (st\<lparr>queries := queries st @ [word],
                          flaggedContent :=
                            AList.update (Some label) \<lparr>score = s, fcontext = word\<rparr> (flaggedContent st)\<rparr>)"
    by (simp add: wordLookup_def Let_def WORD_THRESHOLD_def)
qed
theorem context_allowed_label_not_flagged_witness:
  "(\<exists>st'. wordLookup (\<lambda>u. if u = utf16 ''blak'' then Resolves [QueryVector 0.97 (Some (utf16 ''black''))] else Resolves [])
            (utf16 ''a black belt blak'') (utf16 ''blak'') \<lparr>flaggedContent = [], queries = []\<rparr> = Inr st' \<and>
          flaggedContent st' = []) \<and>
   promiseAll (wordLookup (\<lambda>u. if u = utf16 ''blak'' then Resolves [QueryVector 0.97 (Some (utf16 ''black''))] else Resolves [])
                 (utf16 ''a black belt blak''))
        [utf16 ''a'', utf16 ''black'', utf16 ''belt'', utf16 ''blak''] \<lparr>flaggedContent = [], queries = []\<rparr>
     = Inr \<lparr>flaggedContent = [], queries = [utf16 ''a'', utf16 ''belt'', utf16 ''blak'']\<rparr> \<and>
   \<not> isAllowedInContext (Some (utf16 ''blue'')) (utf16 ''a black belt blak'') \<and>
   wordLookup (\<lambda>u. if u = utf16 ''blak'' then Resolves [QueryVector 0.97 (Some (utf16 ''blue''))] else Resolves [])
        (utf16 ''a black belt blak'') (utf16 ''blak'') \<lparr>flaggedContent = [], queries = []\<rparr>
     = Inr \<lparr>flaggedContent = [(Some (utf16 ''blue''), \<lparr>score = 0.97, fcontext = utf16 ''blak''\<rparr>)], queries = [utf16 ''blak'']\<rparr>"
proof -
  let ?index = "\<lambda>u. if u = utf16 ''blak'' then Resolves [QueryVector 0.97 (Some (utf16 ''black''))] else Resolves []"
  let ?index2 = "\<lambda>u. if u = utf16 ''blak'' then Resolves [QueryVector 0.97 (Some (utf16 ''blue''))] else Resolves []"
  let ?ctx = "utf16 ''a black belt blak''"
  let ?init = "\<lparr>flaggedContent = [], queries = []\<rparr>"
  have tbl: "map_of ALLOWED_CONTEXT_SPECIFIC (utf16 ''black'') = Some [utf16 ''black belt'', utf16 ''black coffee'', utf16 ''black friday'']"
    by (simp add: ALLOWED_CONTEXT_SPECIFIC_def utf16_def)
  have "?ctx = (utf16 ''a '') @ (utf16 ''black belt'') @ (utf16 '' blak'')" by (simp add: utf16_def)
  then have "\<exists>pre post. ?ctx = pre @ (utf16 ''black belt'') @ post" by blast
  then have "\<exists>a \<in> set [utf16 ''black belt'', utf16 ''black coffee'', utf16 ''black friday'']. \<exists>pre post. ?ctx = pre @ a @ post"
    by (intro bexI [of _ "utf16 ''black belt''"]) simp_all
  with tbl have h1: "map_of ALLOWED_CONTEXT_SPECIFIC (utf16 ''black'') = Some [utf16 ''black belt'', utf16 ''black coffee'', utf16 ''black friday''] \<and>
      (\<exists>a \<in> set [utf16 ''black belt'', utf16 ''black coffee'', utf16 ''black friday'']. \<exists>pre post. ?ctx = pre @ a @ post)"
    by (rule conjI)
  have q: "?index (utf16 ''blak'') = Resolves (QueryVector 0.97 (Some (utf16 ''black'')) # [])" by simp
  have run: "promiseAll (wordLookup ?index ?ctx) [utf16 ''a'', utf16 ''black'', utf16 ''belt'', utf16 ''blak''] ?init
      = Inr \<lparr>flaggedContent = [], queries = [utf16 ''a'', utf16 ''belt'', utf16 ''blak'']\<rparr>"
    by (simp add: lookup_eval)
  note inst = context_allowed_label_not_flagged
      [of "utf16 ''black''" "[utf16 ''black belt'', utf16 ''black coffee'', utf16 ''black friday'']" ?ctx ?index "utf16 ''blak''" "0.97" "[]"
          ?init "[utf16 ''a'', utf16 ''black'', utf16 ''belt'', utf16 ''blak'']" "\<lparr>flaggedContent = [], queries = [utf16 ''a'', utf16 ''belt'', utf16 ''blak'']\<rparr>"]
  from inst h1 q have r1: "\<exists>st'. wordLookup ?index ?ctx (utf16 ''blak'') ?init = Inr st' \<and>
      flaggedContent st' = flaggedContent ?init"
    by blast
  have h2: "map_of ALLOWED_CONTEXT_SPECIFIC (utf16 ''blue'') = None"
    by (simp add: ALLOWED_CONTEXT_SPECIFIC_def utf16_def)
  have h3: "(utf16 ''blak'') \<notin> ALLOWED_GENERAL \<and> ?index2 (utf16 ''blak'') = Resolves (QueryVector 0.97 (Some (utf16 ''blue'')) # []) \<and>
      (0.97 :: real) > 0.95"
    by (simp add: ALLOWED_GENERAL_def utf16_def)
  note inst2 = context_allowed_label_not_flagged
      [of "utf16 ''blue''" _ ?ctx ?index2 "utf16 ''blak''" "0.97" "[]" ?init]
  from inst2 h2 have r3: "\<not> isAllowedInContext (Some (utf16 ''blue'')) ?ctx" by blast
  from inst2 h2 h3 have r4: "wordLookup ?index2 ?ctx (utf16 ''blak'') ?init =
      Inr (?init\<lparr>queries := queries ?init @ [utf16 ''blak''],
                 flaggedContent := AList.update (Some (utf16 ''blue'')) \<lparr>score = 0.97, fcontext = utf16 ''blak''\<rparr>
                    (flaggedContent ?init)\<rparr>)"
    by blast
  from r1 run r3 r4 show ?thesis by simp
qed

lemma word_phase_general:
  assumes run: "promiseAll (wordLookup index ctx) words \<lparr>flaggedContent = [], queries = []\<rparr> = Inr st1"
    and general: "word \<in> ALLOWED_GENERAL"
  shows "word \<notin> set (queries st1) \<and> (\<forall>e \<in> set (flaggedContent st1). fcontext (snd e) \<noteq> word)"
proof -
  let ?P = "\<lambda>s. word \<notin> set (queries s) \<and> (\<forall>e \<in> set (flaggedContent s). fcontext (snd e) \<noteq> word)"
  have init: "?P \<lparr>flaggedContent = [], queries = []\<rparr>" by simp
  have step: "\<And>w s s'. w \<in> set words \<Longrightarrow> ?P s \<Longrightarrow> wordLookup index ctx w s = Inr s' \<Longrightarrow> ?P s'"
  proof -
    fix w s s'
    assume p: "?P s" and st: "wordLookup index ctx w s = Inr s'"
    from wordLookup_cases [OF st] general p have q: "word \<notin> set (queries s')"
      by auto
    from wordLookup_cases [OF st]
    consider "flaggedContent s' = flaggedContent s"
      | v where "w \<notin> ALLOWED_GENERAL"
          "flaggedContent s' =
             AList.update (metadata_text v) \<lparr>score = vector_score v, fcontext = w\<rparr> (flaggedContent s)"
      by blast
    then have "\<forall>e \<in> set (flaggedContent s'). fcontext (snd e) \<noteq> word"
    proof cases
      case 1
      with p show ?thesis by simp
    next
      case 2
      show ?thesis
      proof
        fix e assume "e \<in> set (flaggedContent s')"
        with 2(2) set_update_subset [of "metadata_text v" "\<lparr>score = vector_score v, fcontext = w\<rparr>" "flaggedContent s"]
        have "e = (metadata_text v, \<lparr>score = vector_score v, fcontext = w\<rparr>) \<or> e \<in> set (flaggedContent s)"
          by auto
        with 2(1) general p show "fcontext (snd e) \<noteq> word" by auto
      qed
    qed
    with q show "?P s'" by simp
  qed
  from run init step show ?thesis
    by (rule promiseAll_invariant [where P = ?P and callback = "wordLookup index ctx" and us = words])
qed

text \<open>
  C5. For a word in the general allowlist the word-level callback returns at once: no
  query is made (the state is returned as it is, whatever the index would do, even
  throw), and after the word-level lookups that word is neither among the queried texts
  nor the context of an entry of the flagged set. The chunk-level callback has no such
  check: every chunk is queried, and recorded when its score exceeds 0.96, also a chunk
  that is itself in the general allowlist.
\<close>

theorem general_allowlist_short_circuit:
  "(word \<in> ALLOWED_GENERAL
      \<longrightarrow> wordLookup index ctx word st = Inr st \<and>
          (promiseAll (wordLookup index ctx) words \<lparr>flaggedContent = [], queries = []\<rparr> = Inr st1
             \<longrightarrow> word \<notin> set (queries st1) \<and>
                 (\<forall>e \<in> set (flaggedContent st1). fcontext (snd e) \<noteq> word))) \<and>
   (index chunk = Resolves (QueryVector s label # rest) \<and> s > 0.96
      \<longrightarrow> chunkLookup index chunk st =
            Inr (st\<lparr>queries := queries st @ [chunk],
                    flaggedContent :=
                      AList.update label \<lparr>score = s, fcontext = chunk\<rparr> (flaggedContent st)\<rparr>))"
proof (intro conjI impI)
  assume "word \<in> ALLOWED_GENERAL"
  then show "wordLookup index ctx word st = Inr st"
    by (simp add: wordLookup_def)
next
  assume "word \<in> ALLOWED_GENERAL"
    and "promiseAll (wordLookup index ctx) words \<lparr>flaggedContent = [], queries = []\<rparr> = Inr st1"
  from word_phase_general [OF this(2,1)]
  show "word \<notin> set (queries st1)" and "\<forall>e \<in> set (flaggedContent st1). fcontext (snd e) \<noteq> word"
    by simp_all
next
  assume "index chunk = Resolves (QueryVector s label # rest) \<and> s > 0.96"
  then show "chunkLookup index chunk st =
            Inr (st\<lparr>queries := queries st @ [chunk],
                    flaggedContent :=
                      AList.update label \<lparr>score = s, fcontext = chunk\<rparr> (flaggedContent st)\<rparr>)"
    by (simp add: chunkLookup_def Let_def SEMANTIC_THRESHOLD_def)
qed

theorem general_allowlist_short_circuit_witness:
  "wordLookup (\<lambda>u. if u = utf16 ''black'' then Rejects (utf16 ''unavailable'') else Resolves [QueryVector 0.99 (Some u)])
      (utf16 ''black cat'') (utf16 ''black'') \<lparr>flaggedContent = [], queries = []\<rparr>
     = Inr \<lparr>flaggedContent = [], queries = []\<rparr> \<and>
   promiseAll (wordLookup (\<lambda>u. Resolves [QueryVector 0.99 (Some u)]) (utf16 ''black cat''))
      [utf16 ''black'', utf16 ''cat''] \<lparr>flaggedContent = [], queries = []\<rparr>
     = Inr \<lparr>flaggedContent = [(Some (utf16 ''cat''), \<lparr>score = 0.99, fcontext = utf16 ''cat''\<rparr>)], queries = [utf16 ''cat'']\<rparr> \<and>
   (utf16 ''black'') \<notin> set [utf16 ''cat''] \<and>
   chunkLookup (\<lambda>u. Resolves [QueryVector 0.99 (Some u)]) (utf16 ''black'') \<lparr>flaggedContent = [], queries = []\<rparr>
     = Inr \<lparr>flaggedContent = [(Some (utf16 ''black''), \<lparr>score = 0.99, fcontext = utf16 ''black''\<rparr>)], queries = [utf16 ''black'']\<rparr>"
proof -
  let ?rejecting = "\<lambda>u. if u = utf16 ''black'' then Rejects (utf16 ''unavailable'') else Resolves [QueryVector 0.99 (Some u)]"
  let ?index = "\<lambda>u. Resolves [QueryVector 0.99 (Some u)]"
  let ?init = "\<lparr>flaggedContent = [], queries = []\<rparr>"
  let ?st1 = "\<lparr>flaggedContent = [(Some (utf16 ''cat''), \<lparr>score = 0.99, fcontext = utf16 ''cat''\<rparr>)], queries = [utf16 ''cat'']\<rparr>"
  have g: "(utf16 ''black'') \<in> ALLOWED_GENERAL" by (simp add: ALLOWED_GENERAL_def utf16_def)
  from general_allowlist_short_circuit [of "utf16 ''black''" ?rejecting "utf16 ''black cat''" ?init] g
  have r1: "wordLookup ?rejecting (utf16 ''black cat'') (utf16 ''black'') ?init = Inr ?init"
    by blast
  have run: "promiseAll (wordLookup ?index (utf16 ''black cat'')) [utf16 ''black'', utf16 ''cat''] ?init = Inr ?st1"
    by (simp add: lookup_eval)
  from general_allowlist_short_circuit [of "utf16 ''black''" ?index "utf16 ''black cat''" ?init "[utf16 ''black'', utf16 ''cat'']" ?st1] g run
  have "(utf16 ''black'') \<notin> set (queries ?st1)" by blast
  then have r2: "(utf16 ''black'') \<notin> set [utf16 ''cat'']" by simp
  have h: "?index (utf16 ''black'') = Resolves (QueryVector 0.99 (Some (utf16 ''black'')) # []) \<and> (0.99 :: real) > 0.96"
    by simp
  from general_allowlist_short_circuit
         [where index = ?index and chunk = "utf16 ''black''" and s = "0.99" and label = "Some (utf16 ''black'')"
            and rest = "[]" and st = ?init] h
  have r3: "chunkLookup ?index (utf16 ''black'') ?init =
      Inr (?init\<lparr>queries := queries ?init @ [utf16 ''black''],
                 flaggedContent := AList.update (Some (utf16 ''black'')) \<lparr>score = 0.99, fcontext = utf16 ''black''\<rparr>
                    (flaggedContent ?init)\<rparr>)"
    by blast
  from r1 run r2 r3 show ?thesis by simp
qed



lemma runLookups_distinct_keys:
  assumes run: "runLookups index words semantics ctx = Inr st"
  shows "distinct (map fst (flaggedContent st))"
proof -
  let ?P = "\<lambda>s. distinct (map fst (flaggedContent s))"
  show ?thesis
  proof (rule runLookups_invariant [OF run, where P = ?P])
    show "?P \<lparr>flaggedContent = [], queries = []\<rparr>" by simp
  next
    fix w s s'
    assume p: "?P s" and step: "wordLookup index ctx w s = Inr s'"
    from wordLookup_cases [OF step]
    consider "flaggedContent s' = flaggedContent s"
      | v where "flaggedContent s' =
             AList.update (metadata_text v) \<lparr>score = vector_score v, fcontext = w\<rparr> (flaggedContent s)"
      by blast
    then show "?P s'"
      using p by cases (simp_all add: distinct_update)
  next
    fix c s s'
    assume p: "?P s" and step: "chunkLookup index c s = Inr s'"
    from chunkLookup_cases [OF step]
    consider "flaggedContent s' = flaggedContent s"
      | v where "flaggedContent s' =
             AList.update (metadata_text v) \<lparr>score = vector_score v, fcontext = c\<rparr> (flaggedContent s)"
      by blast
    then show "?P s'"
      using p by cases (simp_all add: distinct_update)
  qed
qed

text \<open>
  C7. The flagged set is keyed by the returned label, and a later write wins: when the
  lookup of a unit records a candidate, the set then maps the label to that candidate
  (its score and its own text as context), whatever entry the label had before, also one
  with a higher score; the entries of the other labels stay as they were. The keys of the
  set are unique.
\<close>

theorem flagged_set_last_write_wins:
  "(word \<notin> ALLOWED_GENERAL \<and> index word = Resolves (QueryVector s label # rest) \<and> s > 0.95 \<and>
    \<not> isAllowedInContext label ctx
      \<longrightarrow> (\<exists>st'. wordLookup index ctx word st = Inr st' \<and>
                 map_of (flaggedContent st') label = Some \<lparr>score = s, fcontext = word\<rparr> \<and>
                 (\<forall>k. k \<noteq> label \<longrightarrow> map_of (flaggedContent st') k = map_of (flaggedContent st) k))) \<and>
   (index chunk = Resolves (QueryVector s label # rest) \<and> s > 0.96
      \<longrightarrow> (\<exists>st'. chunkLookup index chunk st = Inr st' \<and>
                 map_of (flaggedContent st') label = Some \<lparr>score = s, fcontext = chunk\<rparr> \<and>
                 (\<forall>k. k \<noteq> label \<longrightarrow> map_of (flaggedContent st') k = map_of (flaggedContent st) k))) \<and>
   (runLookups index words semantics ctx = Inr final \<longrightarrow> distinct (map fst (flaggedContent final)))"
proof (intro conjI impI)
  assume "word \<notin> ALLOWED_GENERAL \<and> index word = Resolves (QueryVector s label # rest) \<and> s > 0.95 \<and>
    \<not> isAllowedInContext label ctx"
  then have "wordLookup index ctx word st =
      Inr (st\<lparr>queries := queries st @ [word],
              flaggedContent := AList.update label \<lparr>score = s, fcontext = word\<rparr> (flaggedContent st)\<rparr>)"
    by (simp add: wordLookup_def Let_def WORD_THRESHOLD_def)
  then show "\<exists>st'. wordLookup index ctx word st = Inr st' \<and>
                 map_of (flaggedContent st') label = Some \<lparr>score = s, fcontext = word\<rparr> \<and>
                 (\<forall>k. k \<noteq> label \<longrightarrow> map_of (flaggedContent st') k = map_of (flaggedContent st) k)"
    by (simp add: update_conv')
next
  assume "index chunk = Resolves (QueryVector s label # rest) \<and> s > 0.96"
  then have "chunkLookup index chunk st =
      Inr (st\<lparr>queries := queries st @ [chunk],
              flaggedContent := AList.update label \<lparr>score = s, fcontext = chunk\<rparr> (flaggedContent st)\<rparr>)"
    by (simp add: chunkLookup_def Let_def SEMANTIC_THRESHOLD_def)
  then show "\<exists>st'. chunkLookup index chunk st = Inr st' \<and>
                 map_of (flaggedContent st') label = Some \<lparr>score = s, fcontext = chunk\<rparr> \<and>
                 (\<forall>k. k \<noteq> label \<longrightarrow> map_of (flaggedContent st') k = map_of (flaggedContent st) k)"
    by (simp add: update_conv')
next
  assume "runLookups index words semantics ctx = Inr final"
  then show "distinct (map fst (flaggedContent final))"
    by (rule runLookups_distinct_keys)
qed

theorem flagged_set_last_write_wins_witness:
  "(\<exists>st'. chunkLookup (\<lambda>u. Resolves [QueryVector 0.97 (Some (utf16 ''x''))]) (utf16 ''bar baz'')
            \<lparr>flaggedContent = [(Some (utf16 ''x''), \<lparr>score = 0.99, fcontext = utf16 ''foo''\<rparr>)], queries = [utf16 ''foo'']\<rparr>
          = Inr st' \<and>
          map_of (flaggedContent st') (Some (utf16 ''x'')) = Some \<lparr>score = 0.97, fcontext = utf16 ''bar baz''\<rparr>) \<and>
   (\<exists>st'. wordLookup (\<lambda>u. Resolves [QueryVector 0.97 (Some (utf16 ''x''))]) (utf16 ''foo bar'') (utf16 ''bar'')
            \<lparr>flaggedContent = [(Some (utf16 ''x''), \<lparr>score = 0.99, fcontext = utf16 ''foo''\<rparr>)], queries = [utf16 ''foo'']\<rparr>
          = Inr st' \<and>
          map_of (flaggedContent st') (Some (utf16 ''x'')) = Some \<lparr>score = 0.97, fcontext = utf16 ''bar''\<rparr>) \<and>
   runLookups (\<lambda>u. if u = utf16 ''foo'' then Resolves [QueryVector 0.99 (Some (utf16 ''x''))]
                   else Resolves [QueryVector 0.97 (Some (utf16 ''x''))])
        [utf16 ''foo'', utf16 ''bar''] [] (utf16 ''foo bar'')
     = Inr \<lparr>flaggedContent = [(Some (utf16 ''x''), \<lparr>score = 0.97, fcontext = utf16 ''bar''\<rparr>)], queries = [utf16 ''foo'', utf16 ''bar'']\<rparr> \<and>
   distinct (map fst [(Some (utf16 ''x''), \<lparr>score = 0.97, fcontext = utf16 ''bar''\<rparr>)]) \<and>
   analyzeContent (\<lambda>u. if u = utf16 ''foo'' then Resolves [QueryVector 0.99 (Some (utf16 ''x''))]
                   else Resolves [QueryVector 0.97 (Some (utf16 ''x''))])
        [utf16 ''foo'', utf16 ''bar''] [] (utf16 ''foo bar'')
     = Inr \<lparr>isImproprio = True, pontuacao = 0.97, flag = Some (utf16 ''x''), contexto = Some (utf16 ''bar'')\<rparr>"
proof -
  let ?index = "\<lambda>u. Resolves [QueryVector 0.97 (Some (utf16 ''x''))]"
  let ?two = "\<lambda>u. if u = utf16 ''foo'' then Resolves [QueryVector 0.99 (Some (utf16 ''x''))]
                   else Resolves [QueryVector 0.97 (Some (utf16 ''x''))]"
  let ?st = "\<lparr>flaggedContent = [(Some (utf16 ''x''), \<lparr>score = 0.99, fcontext = utf16 ''foo''\<rparr>)], queries = [utf16 ''foo'']\<rparr>"
  let ?final = "\<lparr>flaggedContent = [(Some (utf16 ''x''), \<lparr>score = 0.97, fcontext = utf16 ''bar''\<rparr>)], queries = [utf16 ''foo'', utf16 ''bar'']\<rparr>"
  have h1: "?index (utf16 ''bar baz'') = Resolves (QueryVector 0.97 (Some (utf16 ''x'')) # []) \<and> (0.97 :: real) > 0.96"
    by simp
  from flagged_set_last_write_wins
         [where index = ?index and chunk = "utf16 ''bar baz''" and s = "0.97" and label = "Some (utf16 ''x'')"
            and rest = "[]" and st = ?st] h1
  have r1: "\<exists>st'. chunkLookup ?index (utf16 ''bar baz'') ?st = Inr st' \<and>
          map_of (flaggedContent st') (Some (utf16 ''x'')) = Some \<lparr>score = 0.97, fcontext = utf16 ''bar baz''\<rparr>"
    by blast
  have h2: "(utf16 ''bar'') \<notin> ALLOWED_GENERAL \<and> ?index (utf16 ''bar'') = Resolves (QueryVector 0.97 (Some (utf16 ''x'')) # []) \<and>
      (0.97 :: real) > 0.95 \<and> \<not> isAllowedInContext (Some (utf16 ''x'')) (utf16 ''foo bar'')"
    by (simp add: lookup_eval)
  from flagged_set_last_write_wins
         [where index = ?index and word = "utf16 ''bar''" and s = "0.97" and label = "Some (utf16 ''x'')"
            and rest = "[]" and st = ?st and ctx = "utf16 ''foo bar''"] h2
  have r2: "\<exists>st'. wordLookup ?index (utf16 ''foo bar'') (utf16 ''bar'') ?st = Inr st' \<and>
          map_of (flaggedContent st') (Some (utf16 ''x'')) = Some \<lparr>score = 0.97, fcontext = utf16 ''bar''\<rparr>"
    by blast
  have run: "runLookups ?two [utf16 ''foo'', utf16 ''bar''] [] (utf16 ''foo bar'') = Inr ?final"
    by (simp add: lookup_eval)
  from flagged_set_last_write_wins
         [where index = ?two and words = "[utf16 ''foo'', utf16 ''bar'']" and semantics = "[]" and ctx = "utf16 ''foo bar''"
            and final = ?final] run
  have "distinct (map fst (flaggedContent ?final))" by blast
  then have r3: "distinct (map fst [(Some (utf16 ''x''), \<lparr>score = 0.97, fcontext = utf16 ''bar''\<rparr>)])" by simp
  have r4: "analyzeContent ?two [utf16 ''foo'', utf16 ''bar''] [] (utf16 ''foo bar'')
     = Inr \<lparr>isImproprio = True, pontuacao = 0.97, flag = Some (utf16 ''x''), contexto = Some (utf16 ''bar'')\<rparr>"
    by (simp add: analyzeContent_def findHighestScore_def run)
  from r1 r2 run r3 r4 show ?thesis by blast
qed

end
